theory Spec2Isabelle
  imports Complex_Main "HOL-Library.Char_ord" "HOL-Library.List_Lexorder" "HOL-Library.AList"
    "HOL-Library.Log_Nat"
begin

section \<open>Schedule reflow: data model\<close>

text \<open>
  The program is TypeScript. Every entity is a \<open>BaseDocument\<close> with a \<open>docId\<close>, a
  \<open>docType\<close> and a \<open>data\<close> payload (src/types/common-types.ts); the record below is
  polymorphic in the payload, as the interface is. Numbers that the program uses as
  counts of minutes or hours are \<open>int\<close>; dates are ISO 8601 strings, exactly as the
  program stores them, and are turned into instants only where the program calls Luxon.
\<close>

record 'a BaseDocument =
  docId :: string
  docType :: string
  data :: 'a

record WorkOrderData =
  workOrderNumber :: string
  manufacturingOrderId :: string
  workCenterId :: string
  startDate :: string
  endDate :: string
  durationMinutes :: int
  isMaintenance :: bool
  dependsOnWorkOrderIds :: "string list"
  setupTimeMinutes :: "int option"

type_synonym WorkOrder = "WorkOrderData BaseDocument"

record Shift =
  dayOfWeek :: int
  startHour :: int
  endHour :: int

record MaintenanceWindow =
  windowStartDate :: string
  windowEndDate :: string
  windowReason :: "string option"

record WorkCenterData =
  name :: string
  shifts :: "Shift list"
  maintenanceWindows :: "MaintenanceWindow list"

type_synonym WorkCenter = "WorkCenterData BaseDocument"

record ManufacturingOrderData =
  manufacturingOrderNumber :: string
  itemId :: string
  quantity :: int
  dueDate :: string

type_synonym ManufacturingOrder = "ManufacturingOrderData BaseDocument"

section \<open>Luxon's UTC DateTime\<close>

text \<open>
  Luxon is a library, not part of the repository. A valid \<open>DateTime\<close> in zone \<open>utc\<close> is
  modelled by its epoch milliseconds. \<open>DateTime.fromISO\<close> with the option \<open>zone: utc\<close> is modelled
  on the forms \<open>YYYY-MM-DDTHH:MM:SS\<close> and \<open>YYYY-MM-DDTHH:MM:SS.mmm\<close> followed by the
  zone \<open>Z\<close> or an offset \<open>+HH:MM\<close> or \<open>-HH:MM\<close>, which Luxon converts to UTC; \<open>toISO\<close>
  prints \<open>YYYY-MM-DDTHH:MM:SS.mmmZ\<close>, as Luxon does in zone \<open>utc\<close>. Luxon reads further
  forms that are not modelled, and turns a string it cannot read into an invalid
  \<open>DateTime\<close>, every comparison with which is false; here \<open>fromISO\<close> maps every string
  outside the modelled forms (and years outside 0000..9999) to the epoch. The theorems
  that evaluate dates do so on strings of the modelled forms. The calendar conversion is
  the usual era-based one for the proleptic Gregorian calendar.
\<close>

type_synonym DateTime = int

definition msPerMinute :: int where "msPerMinute = 60000"
definition msPerHour :: int where "msPerHour = 3600000"
definition msPerDay :: int where "msPerDay = 86400000"

definition days_from_civil :: "int \<Rightarrow> int \<Rightarrow> int \<Rightarrow> int" where
  "days_from_civil y m d =
     (let y1 = (if m \<le> 2 then y - 1 else y);
          era = y1 div 400;
          yoe = y1 - era * 400;
          doy = (153 * (if m > 2 then m - 3 else m + 9) + 2) div 5 + d - 1;
          doe = yoe * 365 + yoe div 4 - yoe div 100 + doy
      in era * 146097 + doe - 719468)"

definition civil_from_days :: "int \<Rightarrow> int \<times> int \<times> int" where
  "civil_from_days z =
     (let z1 = z + 719468;
          era = z1 div 146097;
          doe = z1 - era * 146097;
          yoe = (doe - doe div 1460 + doe div 36524 - doe div 146096) div 365;
          y = yoe + era * 400;
          doy = doe - (365 * yoe + yoe div 4 - yoe div 100);
          mp = (5 * doy + 2) div 153;
          d = doy - (153 * mp + 2) div 5 + 1;
          m = (if mp < 10 then mp + 3 else mp - 9)
      in (if m \<le> 2 then y + 1 else y, m, d))"

definition digit_val :: "char \<Rightarrow> int option" where
  "digit_val c =
     (let n = (of_char c :: nat) in if 48 \<le> n \<and> n \<le> 57 then Some (int n - 48) else None)"

fun digits_val :: "string \<Rightarrow> int \<Rightarrow> int option" where
  "digits_val [] acc = Some acc"
| "digits_val (c # cs) acc =
     (case digit_val c of None \<Rightarrow> None | Some v \<Rightarrow> digits_val cs (acc * 10 + v))"

definition num_field :: "string \<Rightarrow> nat \<Rightarrow> nat \<Rightarrow> int option" where
  "num_field s i n = digits_val (take n (drop i s)) 0"

definition is_leap :: "int \<Rightarrow> bool" where
  "is_leap y = (y mod 4 = 0 \<and> (y mod 100 \<noteq> 0 \<or> y mod 400 = 0))"

definition days_in_month :: "int \<Rightarrow> int \<Rightarrow> int" where
  "days_in_month y m =
     (if m = 2 then (if is_leap y then 29 else 28)
      else if m = 4 \<or> m = 6 \<or> m = 9 \<or> m = 11 then 30 else 31)"

definition zone_offset :: "string \<Rightarrow> int option" where
  \<comment> \<open>the zone designator \<open>Z\<close> or \<open>+HH:MM\<close>, \<open>-HH:MM\<close>, in minutes east of UTC\<close>
  "zone_offset z =
     (if z = ''Z'' then Some 0
      else if length z = 6 \<and> (z ! 0 = CHR ''+'' \<or> z ! 0 = CHR ''-'') \<and> z ! 3 = CHR '':''
      then (case (num_field z 1 2, num_field z 4 2) of
              (Some h, Some m) \<Rightarrow>
                if h \<le> 23 \<and> m \<le> 59
                then Some ((if z ! 0 = CHR ''-'' then - 1 else 1) * (h * 60 + m))
                else None
            | _ \<Rightarrow> None)
      else None)"

definition parse_iso :: "string \<Rightarrow> DateTime option" where
  "parse_iso s =
     (let n = length s; hasMs = (n = 24 \<or> n = 29)
      in if (n = 20 \<or> n = 24 \<or> n = 25 \<or> n = 29)
            \<and> s ! 4 = CHR ''-'' \<and> s ! 7 = CHR ''-'' \<and> s ! 10 = CHR ''T''
            \<and> s ! 13 = CHR '':'' \<and> s ! 16 = CHR '':''
            \<and> (if hasMs then s ! 19 = CHR ''.'' else True)
         then
           (case (num_field s 0 4, num_field s 5 2, num_field s 8 2,
                  num_field s 11 2, num_field s 14 2, num_field s 17 2,
                  (if hasMs then num_field s 20 3 else Some 0),
                  zone_offset (drop (if hasMs then 23 else 19) s)) of
              (Some y, Some m, Some d, Some h, Some mi, Some sec, Some ms, Some off) \<Rightarrow>
                if 1 \<le> m \<and> m \<le> 12 \<and> 1 \<le> d \<and> d \<le> days_in_month y m
                   \<and> h \<le> 23 \<and> mi \<le> 59 \<and> sec \<le> 59
                then Some (days_from_civil y m d * msPerDay + h * msPerHour
                           + mi * msPerMinute + sec * 1000 + ms - off * msPerMinute)
                else None
            | _ \<Rightarrow> None)
         else None)"

definition fromISO :: "string \<Rightarrow> DateTime" where
  "fromISO s = (case parse_iso s of Some t \<Rightarrow> t | None \<Rightarrow> 0)"

definition digit_char :: "int \<Rightarrow> char" where
  "digit_char d = char_of (48 + nat d)"

definition pad2 :: "int \<Rightarrow> string" where
  "pad2 n = [digit_char (n div 10 mod 10), digit_char (n mod 10)]"

definition pad3 :: "int \<Rightarrow> string" where
  "pad3 n = digit_char (n div 100 mod 10) # pad2 n"

definition pad4 :: "int \<Rightarrow> string" where
  "pad4 n = digit_char (n div 1000 mod 10) # pad3 n"

definition toISO :: "DateTime \<Rightarrow> string" where
  "toISO t =
     (let day = t div msPerDay; tod = t mod msPerDay;
          (y, m, d) = civil_from_days day
      in pad4 y @ ''-'' @ pad2 m @ ''-'' @ pad2 d @ ''T''
         @ pad2 (tod div msPerHour) @ '':'' @ pad2 (tod mod msPerHour div msPerMinute)
         @ '':'' @ pad2 (tod mod msPerMinute div 1000) @ ''.'' @ pad3 (tod mod 1000) @ ''Z'')"

text \<open>The accessors of a UTC \<open>DateTime\<close> that the program uses.\<close>

definition startOfDay :: "DateTime \<Rightarrow> DateTime" where
  "startOfDay t = t - t mod msPerDay"

definition plusDays :: "DateTime \<Rightarrow> int \<Rightarrow> DateTime" where
  "plusDays t n = t + n * msPerDay"

definition plusHours :: "DateTime \<Rightarrow> int \<Rightarrow> DateTime" where
  "plusHours t n = t + n * msPerHour"

definition weekday :: "DateTime \<Rightarrow> int" where
  \<comment> \<open>Luxon: Monday = 1 .. Sunday = 7; 1970-01-01 was a Thursday.\<close>
  "weekday t = (t div msPerDay + 3) mod 7 + 1"

definition hour :: "DateTime \<Rightarrow> int" where
  "hour t = t mod msPerDay div msPerHour"

definition minute :: "DateTime \<Rightarrow> int" where
  "minute t = t mod msPerHour div msPerMinute"


section \<open>JavaScript numbers\<close>

text \<open>
  A JavaScript number is an IEEE 754 binary64 value; a finite one is modelled by the
  rational it denotes. \<open>toDouble\<close> rounds a rational to the nearest binary64 value, ties
  to even, with the subnormal range below 2 to the power -1022; division and multiplication of
  numbers are the exact operations followed by this rounding. \<open>Math.round\<close> is
  \<open>\<lfloor>x + 1/2\<rfloor>\<close> on the value. Magnitudes beyond the largest binary64 value (which
  JavaScript turns into \<open>Infinity\<close>) are not modelled.
\<close>

definition pow2 :: "int \<Rightarrow> rat" where
  "pow2 k = (if k \<ge> 0 then of_int (2 ^ nat k) else 1 / of_int (2 ^ nat (- k)))"

definition roundTiesToEven :: "rat \<Rightarrow> int" where
  "roundTiesToEven x =
     (let f = \<lfloor>x\<rfloor>; d = x - of_int f
      in if d < 1 / 2 then f else if d > 1 / 2 then f + 1 else if even f then f else f + 1)"

definition binaryExponent :: "rat \<Rightarrow> int" where
  \<comment> \<open>\<open>\<lfloor>log\<^sub>2 |x|\<rfloor>\<close> for \<open>x \<noteq> 0\<close>\<close>
  "binaryExponent x =
     (let (p, q) = quotient_of \<bar>x\<bar>; k = bitlen p - bitlen q
      in if pow2 k \<le> \<bar>x\<bar> then k else k - 1)"

definition toDouble :: "rat \<Rightarrow> rat" where
  "toDouble x =
     (if x = 0 then 0
      else let e = max (binaryExponent x) (- 1022); q = pow2 (e - 52)
           in of_int (roundTiesToEven (x / q)) * q)"

definition mathRound :: "rat \<Rightarrow> int" where
  "mathRound x = \<lfloor>x + 1 / 2\<rfloor>"

section \<open>Errors\<close>

text \<open>
  Every \<open>throw\<close> of the program is a value of \<open>error\<close>; a function that can throw
  returns \<open>error + 'a\<close>. \<open>TypeError\<close> stands for the JavaScript runtime error of reading a
  property of \<open>undefined\<close> (a failed \<open>Map.get(...)!\<close>). \<open>OutOfFuel\<close> is not an error of the
  program: it marks a run of the depth-first search that the embedding cut off. It does
  not occur on a graph that \<open>buildDependencyGraph\<close> built (lemma \<open>detectCycles_fuel\<close>).
\<close>

datatype ValidationErrorType =
  DEPENDENCY_VIOLATION | WORK_CENTER_CONFLICT | SHIFT_VIOLATION | MAINTENANCE_CONFLICT
  | CIRCULAR_DEPENDENCY

record ValidationError =
  errorType :: ValidationErrorType
  message :: string
  workOrderIds :: "string list"

datatype error =
    ShiftCalculationExceeded
  | NoNextShiftStart
  | DanglingDependency string string
  | CircularDependency string
  | TopologicalSortFailed
  | NoAvailableSlot string
  | InvalidSchedule "ValidationError list"
  | TypeError
  | OutOfFuel

section \<open>Date utilities (utils/date-utils.ts)\<close>

definition dayOfWeekOf :: "DateTime \<Rightarrow> int" where
  \<comment> \<open>\<open>currentDate.weekday % 7\<close>: Sunday = 0 .. Saturday = 6\<close>
  "dayOfWeekOf t = weekday t mod 7"

definition findShift :: "Shift list \<Rightarrow> DateTime \<Rightarrow> Shift option" where
  \<comment> \<open>\<open>shifts.find(s => s.dayOfWeek === dayOfWeek)\<close>\<close>
  "findShift sh t = find (\<lambda>s. dayOfWeek s = dayOfWeekOf t) sh"

definition nextDay :: "DateTime \<Rightarrow> DateTime" where
  \<comment> \<open>\<open>currentDate.plus({ days: 1 }).startOf('day')\<close>\<close>
  "nextDay t = startOfDay (plusDays t 1)"

text \<open>
  The loop of \<open>calculateEndDateWithShifts\<close>. The first argument counts the iterations
  that are left of \<open>maxIterations\<close>; the loop returns the date it reached and the
  iterations left, so that \<open>iterations >= maxIterations\<close> is "none left". The remaining
  work is kept in milliseconds (the program keeps minutes as a floating-point number,
  \<open>availableMinutes\<close> being a difference of instants divided by 60000).
\<close>

fun shiftLoop :: "nat \<Rightarrow> Shift list \<Rightarrow> DateTime \<Rightarrow> int \<Rightarrow> DateTime \<times> nat" where
  "shiftLoop 0 sh cur remaining = (cur, 0)"
| "shiftLoop (Suc n) sh cur remaining =
     (if remaining > 0 then
        (case findShift sh cur of
           None \<Rightarrow> shiftLoop n sh (nextDay cur) remaining
         | Some s \<Rightarrow>
             let shiftStart = plusHours (startOfDay cur) (startHour s);
                 shiftEnd = plusHours (startOfDay cur) (endHour s)
             in if cur < shiftStart then shiftLoop n sh shiftStart remaining
                else if cur \<ge> shiftEnd then shiftLoop n sh (nextDay cur) remaining
                else
                  let available = shiftEnd - cur
                  in if available \<ge> remaining then shiftLoop n sh (cur + remaining) 0
                     else shiftLoop n sh (nextDay cur) (remaining - available))
      else (cur, Suc n))"

definition endDateWithShifts :: "DateTime \<Rightarrow> int \<Rightarrow> Shift list \<Rightarrow> error + DateTime" where
  \<comment> \<open>\<open>calculateEndDateWithShifts\<close> between \<open>fromISO\<close> and \<open>toISO\<close>\<close>
  "endDateWithShifts start dur sh =
     (case shiftLoop 1000 sh start (dur * msPerMinute) of
        (cur, left) \<Rightarrow> if left = 0 then Inl ShiftCalculationExceeded else Inr cur)"

definition calculateEndDateWithShifts :: "string \<Rightarrow> int \<Rightarrow> Shift list \<Rightarrow> error + string" where
  "calculateEndDateWithShifts startStr dur sh =
     (case endDateWithShifts (fromISO startStr) dur sh of
        Inl e \<Rightarrow> Inl e
      | Inr cur \<Rightarrow> Inr (toISO cur))"

definition overlapsWithMaintenance :: "string \<Rightarrow> string \<Rightarrow> MaintenanceWindow list \<Rightarrow> bool" where
  "overlapsWithMaintenance startStr endStr windows =
     (let start = fromISO startStr; finish = fromISO endStr
      in list_ex (\<lambda>window.
            let windowStart = fromISO (windowStartDate window);
                windowEnd = fromISO (windowEndDate window)
            in start < windowEnd \<and> finish > windowStart) windows)"

definition timeRangesOverlap :: "string \<Rightarrow> string \<Rightarrow> string \<Rightarrow> string \<Rightarrow> bool" where
  "timeRangesOverlap start1 end1 start2 end2 =
     (let s1 = fromISO start1; e1 = fromISO end1; s2 = fromISO start2; e2 = fromISO end2
      in s1 < e2 \<and> e1 > s2)"

fun nextShiftLoop :: "nat \<Rightarrow> Shift list \<Rightarrow> DateTime \<Rightarrow> error + DateTime" where
  "nextShiftLoop 0 sh cur = Inl NoNextShiftStart"
| "nextShiftLoop (Suc n) sh cur =
     (case findShift sh cur of
        Some s \<Rightarrow>
          let shiftStart = plusHours (startOfDay cur) (startHour s)
          in if cur \<le> shiftStart then Inr shiftStart
             else nextShiftLoop n sh (nextDay cur)
      | None \<Rightarrow> nextShiftLoop n sh (nextDay cur))"

definition findNextShiftStart :: "string \<Rightarrow> Shift list \<Rightarrow> error + string" where
  "findNextShiftStart date sh =
     (case nextShiftLoop 100 sh (fromISO date) of
        Inl e \<Rightarrow> Inl e
      | Inr t \<Rightarrow> Inr (toISO t))"

definition calculateDelayMinutes :: "string \<Rightarrow> string \<Rightarrow> int" where
  \<comment> \<open>\<open>Math.round\<close> of the difference in minutes: halves go up\<close>
  "calculateDelayMinutes originalDate newDate =
     (fromISO newDate - fromISO originalDate + 30000) div msPerMinute"

definition withinShiftHours :: "DateTime \<Rightarrow> Shift list \<Rightarrow> bool" where
  "withinShiftHours dt sh =
     (case findShift sh dt of
        None \<Rightarrow> False
      | Some s \<Rightarrow>
          let currentMinutes = hour dt * 60 + minute dt;
              shiftStartMinutes = startHour s * 60;
              shiftEndMinutes = endHour s * 60
          in currentMinutes \<ge> shiftStartMinutes \<and> currentMinutes < shiftEndMinutes)"

definition isWithinShiftHours :: "string \<Rightarrow> Shift list \<Rightarrow> bool" where
  "isWithinShiftHours date sh = withinShiftHours (fromISO date) sh"

section \<open>Dependency resolver (core/dependency-resolver.ts)\<close>

record DependencyNode =
  nodeWorkOrderId :: string
  parents :: "string list"
  children :: "string list"
  depth :: int

text \<open>
  A JavaScript \<open>Map\<close> keeps its keys in the order of their first insertion, and \<open>set\<close> on
  a present key replaces the value in place: an association list under \<open>AList.update\<close>,
  read with \<open>map_of\<close>.
\<close>

type_synonym Graph = "(string \<times> DependencyNode) list"

definition initNodes :: "WorkOrder list \<Rightarrow> Graph" where
  "initNodes workOrders =
     foldl (\<lambda>graph wo.
              AList.update (docId wo)
                \<lparr>nodeWorkOrderId = docId wo, parents = dependsOnWorkOrderIds (data wo),
                 children = [], depth = 0\<rparr> graph)
           [] workOrders"

fun addChildren :: "Graph \<Rightarrow> WorkOrder \<Rightarrow> string list \<Rightarrow> error + Graph" where
  "addChildren graph wo [] = Inr graph"
| "addChildren graph wo (parentId # rest) =
     (case map_of graph parentId of
        None \<Rightarrow> Inl (DanglingDependency (workOrderNumber (data wo)) parentId)
      | Some parentNode \<Rightarrow>
          addChildren
            (AList.update parentId (parentNode\<lparr>children := children parentNode @ [docId wo]\<rparr>) graph)
            wo rest)"

fun linkChildren :: "Graph \<Rightarrow> WorkOrder list \<Rightarrow> error + Graph" where
  "linkChildren graph [] = Inr graph"
| "linkChildren graph (wo # rest) =
     (case addChildren graph wo (dependsOnWorkOrderIds (data wo)) of
        Inl e \<Rightarrow> Inl e
      | Inr graph' \<Rightarrow> linkChildren graph' rest)"

definition buildDependencyGraph :: "WorkOrder list \<Rightarrow> error + Graph" where
  "buildDependencyGraph workOrders = linkChildren (initNodes workOrders) workOrders"

datatype Color = WHITE | GRAY | BLACK

text \<open>
  The state of the search: the \<open>colors\<close> map, the \<open>path\<close> array that every call shares,
  and \<open>cycleNodes\<close>. The recursion of \<open>dfs\<close> is cut off by its first argument, which
  bounds the depth of the calls; \<open>None\<close> is a run that was cut off. \<open>graph.get(nodeId)!\<close>
  is always defined, a searched node being a key of \<open>colors\<close>, so of \<open>graph\<close>; the
  embedding gives that case \<open>None\<close> too.
\<close>

type_synonym DfsState = "(string \<rightharpoonup> Color) \<times> string list \<times> string list"

fun dfs :: "nat \<Rightarrow> Graph \<Rightarrow> string \<Rightarrow> DfsState \<Rightarrow> (bool \<times> DfsState) option"
  and dfsParents :: "nat \<Rightarrow> Graph \<Rightarrow> string \<Rightarrow> string list \<Rightarrow> DfsState \<Rightarrow> (bool \<times> DfsState) option"
where
  "dfs 0 graph nodeId st = None"
| "dfs (Suc n) graph nodeId (colors, path, cycleNodes) =
     (case map_of graph nodeId of
        None \<Rightarrow> None
      | Some node \<Rightarrow>
          dfsParents n graph nodeId (parents node)
            (colors(nodeId \<mapsto> GRAY), path @ [nodeId], cycleNodes))"
| "dfsParents n graph nodeId [] (colors, path, cycleNodes) =
     Some (False, (colors(nodeId \<mapsto> BLACK), butlast path, cycleNodes))"
| "dfsParents n graph nodeId (parentId # rest) (colors, path, cycleNodes) =
     (case colors parentId of
        Some GRAY \<Rightarrow> Some (True, (colors, path, cycleNodes @ path @ [parentId]))
      | Some WHITE \<Rightarrow>
          (case dfs n graph parentId (colors, path, cycleNodes) of
             None \<Rightarrow> None
           | Some (True, st') \<Rightarrow> Some (True, st')
           | Some (False, st') \<Rightarrow> dfsParents n graph nodeId rest st')
      | _ \<Rightarrow> dfsParents n graph nodeId rest (colors, path, cycleNodes))"

definition dedup :: "'a list \<Rightarrow> 'a list" where
  \<comment> \<open>\<open>[...new Set(xs)]\<close>: the first occurrence of each element, in order\<close>
  "dedup xs = rev (remdups (rev xs))"

fun detectLoop :: "Graph \<Rightarrow> string list \<Rightarrow> DfsState \<Rightarrow> error + ValidationError option" where
  "detectLoop graph [] st = Inr None"
| "detectLoop graph (nodeId # rest) (colors, path, cycleNodes) =
     (if colors nodeId = Some WHITE then
        (case dfs (length graph) graph nodeId (colors, [], cycleNodes) of
           None \<Rightarrow> Inl OutOfFuel
         | Some (True, (colors', path', cycleNodes')) \<Rightarrow>
             Inr (Some \<lparr>errorType = CIRCULAR_DEPENDENCY,
                        message = ''Circular dependency detected in work order dependencies'',
                        workOrderIds = dedup cycleNodes'\<rparr>)
         | Some (False, st') \<Rightarrow> detectLoop graph rest st')
      else detectLoop graph rest (colors, path, cycleNodes))"

definition detectCycles :: "Graph \<Rightarrow> error + ValidationError option" where
  "detectCycles graph =
     detectLoop graph (map fst graph) (map_of (map (\<lambda>(k, v). (k, WHITE)) graph), [], [])"

text \<open>Kahn's algorithm. \<open>inDegree\<close> is a \<open>Map\<close> with the keys of the graph.\<close>

fun processChildren ::
  "(string \<times> int) list \<Rightarrow> string list \<Rightarrow> string list \<Rightarrow> (string \<times> int) list \<times> string list" where
  "processChildren inDegree queue [] = (inDegree, queue)"
| "processChildren inDegree queue (childId # rest) =
     (case map_of inDegree childId of
        None \<Rightarrow> processChildren inDegree queue rest
      | Some currentDegree \<Rightarrow>
          processChildren (AList.update childId (currentDegree - 1) inDegree)
            (if currentDegree - 1 = 0 then queue @ [childId] else queue) rest)"

definition positives :: "(string \<times> int) list \<Rightarrow> nat" where
  "positives inDegree = length (filter (\<lambda>p. snd p > 0) inDegree)"

lemma positives_update:
  "map_of inDegree c = Some d \<Longrightarrow>
   positives (AList.update c (d - 1) inDegree) + (if d = 1 then 1 else 0) = positives inDegree"
  by (induction inDegree) (auto simp: positives_def)

lemma processChildren_measure:
  "processChildren inDegree queue cs = (inDegree', queue') \<Longrightarrow>
   length queue' + positives inDegree' = length queue + positives inDegree"
proof (induction cs arbitrary: inDegree queue)
  case Nil
  then show ?case by simp
next
  case (Cons c cs)
  show ?case
  proof (cases "map_of inDegree c")
    case None
    with Cons show ?thesis by simp
  next
    case (Some d)
    with Cons.prems have
      "processChildren (AList.update c (d - 1) inDegree)
         (if d - 1 = 0 then queue @ [c] else queue) cs = (inDegree', queue')"
      by simp
    from Cons.IH[OF this] positives_update[OF Some]
    show ?thesis by (auto split: if_splits)
  qed
qed

function kahn :: "Graph \<Rightarrow> (string \<times> int) list \<Rightarrow> string list \<Rightarrow> string list \<Rightarrow> error + string list" where
  "kahn graph inDegree [] sortedIds = Inr sortedIds"
| "kahn graph inDegree (nodeId # queue) sortedIds =
     (case map_of graph nodeId of
        None \<Rightarrow> Inl TypeError
      | Some node \<Rightarrow>
          (case processChildren inDegree queue (children node) of
             (inDegree', queue') \<Rightarrow> kahn graph inDegree' queue' (sortedIds @ [nodeId])))"
  by pat_completeness auto
termination
  apply (relation "measure (\<lambda>(graph, inDegree, queue, sortedIds). length queue + positives inDegree)")
   apply simp
  apply (auto dest!: processChildren_measure[OF sym])
  done

definition lastIndexOf :: "WorkOrder list \<Rightarrow> string \<Rightarrow> nat option" where
  \<comment> \<open>\<open>new Map(workOrders.map(wo => [wo.docId, wo])).get(id)\<close>: the last entry wins;
      the object is named by its position in the array\<close>
  "lastIndexOf workOrders ident =
     (case find (\<lambda>i. docId (workOrders ! i) = ident) (rev [0..<length workOrders]) of
        None \<Rightarrow> None | Some i \<Rightarrow> Some i)"

fun lookupAll :: "WorkOrder list \<Rightarrow> string list \<Rightarrow> error + nat list" where
  "lookupAll workOrders [] = Inr []"
| "lookupAll workOrders (ident # rest) =
     (case lastIndexOf workOrders ident of
        None \<Rightarrow> Inl TypeError
      | Some i \<Rightarrow> (case lookupAll workOrders rest of Inl e \<Rightarrow> Inl e | Inr is \<Rightarrow> Inr (i # is)))"

text \<open>
  \<open>topologicalSort\<close> returns the work-order objects in execution order. The objects are
  those of the array it was given, so the embedding returns their positions in it.
\<close>

definition topologicalSort :: "WorkOrder list \<Rightarrow> error + nat list" where
  "topologicalSort workOrders =
     (case buildDependencyGraph workOrders of
        Inl e \<Rightarrow> Inl e
      | Inr graph \<Rightarrow>
          (case detectCycles graph of
             Inl e \<Rightarrow> Inl e
           | Inr (Some cycleError) \<Rightarrow> Inl (CircularDependency (message cycleError))
           | Inr None \<Rightarrow>
               let inDegree = map (\<lambda>(ident, node). (ident, int (length (parents node)))) graph;
                   queue = map fst (filter (\<lambda>(ident, degree). degree = 0) inDegree)
               in (case kahn graph inDegree queue [] of
                     Inl e \<Rightarrow> Inl e
                   | Inr sortedIds \<Rightarrow>
                       if length sortedIds \<noteq> length workOrders then Inl TopologicalSortFailed
                       else lookupAll workOrders sortedIds)))"

section \<open>Constraint validator (core/constraint-validator.ts)\<close>

definition workOrderMapGet :: "WorkOrder list \<Rightarrow> string \<Rightarrow> WorkOrder option" where
  \<comment> \<open>\<open>new Map(workOrders.map(wo => [wo.docId, wo])).get(id)\<close>\<close>
  "workOrderMapGet workOrders ident = map_of (rev (map (\<lambda>wo. (docId wo, wo)) workOrders)) ident"

definition workCenterMapGet :: "WorkCenter list \<Rightarrow> string \<Rightarrow> WorkCenter option" where
  \<comment> \<open>\<open>new Map(workCenters.map(wc => [wc.docId, wc])).get(id)\<close>\<close>
  "workCenterMapGet workCenters ident = map_of (rev (map (\<lambda>wc. (docId wc, wc)) workCenters)) ident"

definition dependencyCheck :: "WorkOrder \<Rightarrow> WorkOrder \<Rightarrow> ValidationError list" where
  \<comment> \<open>the body of \<open>parents.forEach\<close> in \<open>validateDependencies\<close>: the errors it pushes\<close>
  "dependencyCheck wo parent =
     (if endDate (data parent) > startDate (data wo) then
        [\<lparr>errorType = DEPENDENCY_VIOLATION,
          message = ''Work order '' @ workOrderNumber (data wo) @ '' starts before dependency ''
                    @ workOrderNumber (data parent) @ '' completes'',
          workOrderIds = [docId wo, docId parent]\<rparr>]
      else [])"

definition dependencyErrors :: "WorkOrder list \<Rightarrow> WorkOrder \<Rightarrow> ValidationError list" where
  \<comment> \<open>the body of \<open>workOrders.forEach\<close> in \<open>validateDependencies\<close>\<close>
  "dependencyErrors workOrders wo =
     (let parentList = List.map_filter (workOrderMapGet workOrders) (dependsOnWorkOrderIds (data wo))
      in concat (map (dependencyCheck wo) parentList))"

definition validateDependencies :: "WorkOrder list \<Rightarrow> ValidationError list" where
  "validateDependencies workOrders = concat (map (dependencyErrors workOrders) workOrders)"

definition groupByWorkCenter :: "WorkOrder list \<Rightarrow> (string \<times> WorkOrder list) list" where
  "groupByWorkCenter workOrders =
     foldl (\<lambda>groups wo.
              let wcId = workCenterId (data wo);
                  groups1 = (if map_of groups wcId = None then AList.update wcId [] groups else groups)
              in (case map_of groups1 wcId of
                    None \<Rightarrow> groups1
                  | Some orders \<Rightarrow> AList.update wcId (orders @ [wo]) groups1))
           [] workOrders"

fun orderedPairs :: "'a list \<Rightarrow> ('a \<times> 'a) list" where
  \<comment> \<open>\<open>for i ... for j = i + 1 ...\<close>\<close>
  "orderedPairs [] = []"
| "orderedPairs (x # xs) = map (Pair x) xs @ orderedPairs xs"

definition validateWorkCenterConflicts :: "WorkOrder list \<Rightarrow> ValidationError list" where
  "validateWorkCenterConflicts workOrders =
     concat (map (\<lambda>(wcId, orders).
       concat (map (\<lambda>(wo1, wo2).
         if timeRangesOverlap (startDate (data wo1)) (endDate (data wo1))
              (startDate (data wo2)) (endDate (data wo2))
         then [\<lparr>errorType = WORK_CENTER_CONFLICT,
                message = ''Work center '' @ wcId @ '' has overlapping work orders: ''
                          @ workOrderNumber (data wo1) @ '' and '' @ workOrderNumber (data wo2),
                workOrderIds = [docId wo1, docId wo2]\<rparr>]
         else []) (orderedPairs orders))) (groupByWorkCenter workOrders))"

definition shiftBoundaryErrors :: "WorkCenter list \<Rightarrow> WorkOrder \<Rightarrow> ValidationError list" where
  "shiftBoundaryErrors workCenters wo =
     (case workCenterMapGet workCenters (workCenterId (data wo)) of
        None \<Rightarrow>
          [\<lparr>errorType = SHIFT_VIOLATION,
            message = ''Work order '' @ workOrderNumber (data wo)
                      @ '' references non-existent work center: '' @ workCenterId (data wo),
            workOrderIds = [docId wo]\<rparr>]
      | Some workCenter \<Rightarrow>
          (if shifts (data workCenter) = [] then
             [\<lparr>errorType = SHIFT_VIOLATION,
               message = ''Work center '' @ name (data workCenter) @ '' has no shifts defined'',
               workOrderIds = [docId wo]\<rparr>]
           else [])
          @ (if \<not> isWithinShiftHours (startDate (data wo)) (shifts (data workCenter)) then
               [\<lparr>errorType = SHIFT_VIOLATION,
                 message = ''Work order '' @ workOrderNumber (data wo) @ '' starts outside shift hours'',
                 workOrderIds = [docId wo]\<rparr>]
             else []))"

definition validateShiftBoundaries :: "WorkOrder list \<Rightarrow> WorkCenter list \<Rightarrow> ValidationError list" where
  "validateShiftBoundaries workOrders workCenters =
     concat (map (shiftBoundaryErrors workCenters) workOrders)"

definition maintenanceErrors :: "WorkCenter list \<Rightarrow> WorkOrder \<Rightarrow> ValidationError list" where
  "maintenanceErrors workCenters wo =
     (case workCenterMapGet workCenters (workCenterId (data wo)) of
        None \<Rightarrow> []
      | Some workCenter \<Rightarrow>
          if overlapsWithMaintenance (startDate (data wo)) (endDate (data wo))
               (maintenanceWindows (data workCenter))
          then [\<lparr>errorType = MAINTENANCE_CONFLICT,
                 message = ''Work order '' @ workOrderNumber (data wo)
                           @ '' overlaps with maintenance window on '' @ name (data workCenter),
                 workOrderIds = [docId wo]\<rparr>]
          else [])"

definition validateMaintenanceWindows :: "WorkOrder list \<Rightarrow> WorkCenter list \<Rightarrow> ValidationError list" where
  "validateMaintenanceWindows workOrders workCenters =
     concat (map (maintenanceErrors workCenters) workOrders)"

definition validateAll :: "WorkOrder list \<Rightarrow> WorkCenter list \<Rightarrow> error + ValidationError list" where
  \<comment> \<open>\<open>Inl\<close>: \<open>buildDependencyGraph\<close> threw\<close>
  "validateAll workOrders workCenters =
     (case buildDependencyGraph workOrders of
        Inl e \<Rightarrow> Inl e
      | Inr graph \<Rightarrow>
          (case detectCycles graph of
             Inl e \<Rightarrow> Inl e
           | Inr cycleError \<Rightarrow>
               Inr ((case cycleError of None \<Rightarrow> [] | Some e \<Rightarrow> [e])
                    @ validateDependencies workOrders
                    @ validateWorkCenterConflicts workOrders
                    @ validateShiftBoundaries workOrders workCenters
                    @ validateMaintenanceWindows workOrders workCenters)))"

section \<open>Reflow service (core/reflow-service.ts)\<close>

record WorkOrderChange =
  workOrderId :: string
  changedWorkOrderNumber :: string
  originalStartDate :: string
  originalEndDate :: string
  newStartDate :: string
  newEndDate :: string
  delayMinutes :: int
  reason :: string

record OptimizationMetrics =
  totalDelayMinutes :: int
  workOrdersAffected :: nat
  workCenterUtilization :: "(string \<times> rat) list"

record ReflowInput =
  workOrders :: "WorkOrder list"
  workCenters :: "WorkCenter list"
  manufacturingOrders :: "ManufacturingOrder list"

record ReflowResult =
  updatedWorkOrders :: "WorkOrder list"
  changes :: "WorkOrderChange list"
  explanation :: string
  metrics :: OptimizationMetrics

definition adjustToShiftStart :: "string \<Rightarrow> WorkCenter \<Rightarrow> error + string" where
  "adjustToShiftStart date workCenter =
     (let dt = fromISO date
      in case findShift (shifts (data workCenter)) dt of
           None \<Rightarrow> findNextShiftStart date (shifts (data workCenter))
         | Some shift \<Rightarrow>
             let currentMinutes = hour dt * 60 + minute dt;
                 shiftStartMinutes = startHour shift * 60;
                 shiftEndMinutes = endHour shift * 60
             in if currentMinutes < shiftStartMinutes
                then Inr (toISO (plusHours (startOfDay dt) (startHour shift)))
                else if currentMinutes \<ge> shiftEndMinutes
                then findNextShiftStart date (shifts (data workCenter))
                else Inr date)"

definition isSlotAvailable ::
  "string \<Rightarrow> string \<Rightarrow> WorkOrder \<Rightarrow> WorkOrder list \<Rightarrow> WorkCenter \<Rightarrow> bool" where
  "isSlotAvailable startStr endStr workOrder allWorkOrders workCenter =
     (let conflictingOrders = filter (\<lambda>wo.
            docId wo \<noteq> docId workOrder
            \<and> workCenterId (data wo) = workCenterId (data workOrder)
            \<and> timeRangesOverlap startStr endStr (startDate (data wo)) (endDate (data wo)))
            allWorkOrders
      in if length conflictingOrders > 0 then False
         else if overlapsWithMaintenance startStr endStr (maintenanceWindows (data workCenter))
         then False
         else True)"

definition blockingPeriods ::
  "string \<Rightarrow> string \<Rightarrow> WorkOrder \<Rightarrow> WorkOrder list \<Rightarrow> WorkCenter \<Rightarrow> (string \<times> string) list" where
  "blockingPeriods currentStart currentEnd workOrder allWorkOrders workCenter =
     map (\<lambda>wo. (startDate (data wo), endDate (data wo)))
       (filter (\<lambda>wo.
          (docId wo \<noteq> docId workOrder \<and> workCenterId (data wo) = workCenterId (data workOrder))
          \<and> timeRangesOverlap currentStart currentEnd (startDate (data wo)) (endDate (data wo)))
          allWorkOrders)
     @ map (\<lambda>window. (windowStartDate window, windowEndDate window))
         (filter (\<lambda>window.
            timeRangesOverlap currentStart currentEnd (windowStartDate window) (windowEndDate window))
            (maintenanceWindows (data workCenter)))"

definition findNextPotentialStart ::
  "string \<Rightarrow> string \<Rightarrow> WorkOrder \<Rightarrow> WorkOrder list \<Rightarrow> WorkCenter \<Rightarrow> string" where
  "findNextPotentialStart currentStart currentEnd workOrder allWorkOrders workCenter =
     (case blockingPeriods currentStart currentEnd workOrder allWorkOrders workCenter of
        [] \<Rightarrow> toISO (plusHours (fromISO currentStart) 1)
      | first # rest \<Rightarrow>
          foldl (\<lambda>earliest period. if snd period < earliest then snd period else earliest)
            (snd first) (first # rest))"

fun slotLoop :: "nat \<Rightarrow> string \<Rightarrow> WorkOrder \<Rightarrow> WorkOrder list \<Rightarrow> WorkCenter \<Rightarrow> error + string" where
  "slotLoop 0 candidateStart workOrder allWorkOrders workCenter =
     Inl (NoAvailableSlot (workOrderNumber (data workOrder)))"
| "slotLoop (Suc n) candidateStart workOrder allWorkOrders workCenter =
     (case adjustToShiftStart candidateStart workCenter of
        Inl e \<Rightarrow> Inl e
      | Inr candidate \<Rightarrow>
          (case calculateEndDateWithShifts candidate (durationMinutes (data workOrder))
                  (shifts (data workCenter)) of
             Inl e \<Rightarrow> Inl e
           | Inr candidateEnd \<Rightarrow>
               if isSlotAvailable candidate candidateEnd workOrder allWorkOrders workCenter
               then Inr candidate
               else slotLoop n
                      (findNextPotentialStart candidate candidateEnd workOrder allWorkOrders workCenter)
                      workOrder allWorkOrders workCenter))"

definition findNextAvailableSlot ::
  "string \<Rightarrow> WorkOrder \<Rightarrow> WorkOrder list \<Rightarrow> WorkCenter \<Rightarrow> error + string" where
  "findNextAvailableSlot startFrom workOrder allWorkOrders workCenter =
     slotLoop 1000 startFrom workOrder allWorkOrders workCenter"

definition parentsOf :: "WorkOrder \<Rightarrow> WorkOrder list \<Rightarrow> WorkOrder list" where
  \<comment> \<open>\<open>dependsOnWorkOrderIds.map(id => allWorkOrders.find(...)).filter(wo => wo !== undefined)\<close>\<close>
  "parentsOf workOrder allWorkOrders =
     List.map_filter (\<lambda>ident. find (\<lambda>wo. docId wo = ident) allWorkOrders)
       (dependsOnWorkOrderIds (data workOrder))"

definition calculateEarliestStartTime ::
  "WorkOrder \<Rightarrow> WorkOrder list \<Rightarrow> WorkCenter list \<Rightarrow> error + string" where
  "calculateEarliestStartTime workOrder allWorkOrders wcs =
     (let parentList = parentsOf workOrder allWorkOrders;
          latestParentEnd = foldl (\<lambda>latest parent.
              if endDate (data parent) > latest then endDate (data parent) else latest) [] parentList;
          candidateStart =
            (if length parentList > 0 \<and> latestParentEnd > startDate (data workOrder)
             then latestParentEnd else startDate (data workOrder))
      in case workCenterMapGet wcs (workCenterId (data workOrder)) of
           None \<Rightarrow> Inl TypeError
         | Some workCenter \<Rightarrow> findNextAvailableSlot candidateStart workOrder allWorkOrders workCenter)"

fun joinWith :: "string \<Rightarrow> string list \<Rightarrow> string" where
  "joinWith sep [] = []"
| "joinWith sep [x] = x"
| "joinWith sep (x # y # ys) = x @ sep @ joinWith sep (y # ys)"

definition generateChangeReason :: "WorkOrder \<Rightarrow> WorkOrder list \<Rightarrow> WorkCenter list \<Rightarrow> string" where
  "generateChangeReason workOrder allWorkOrders wcs =
     (let parentList = parentsOf workOrder allWorkOrders;
          delayedParents = filter (\<lambda>p. endDate (data p) > startDate (data workOrder)) parentList;
          reasons1 = (if length parentList > 0 \<and> length delayedParents > 0
                      then [''Waiting for dependencies: ''
                              @ joinWith '', '' (map (\<lambda>p. workOrderNumber (data p)) delayedParents)]
                      else []);
          conflicting = filter (\<lambda>wo.
              docId wo \<noteq> docId workOrder
              \<and> workCenterId (data wo) = workCenterId (data workOrder)
              \<and> endDate (data wo) > startDate (data workOrder)
              \<and> startDate (data wo) < startDate (data workOrder)) allWorkOrders;
          reasons2 = (case workCenterMapGet wcs (workCenterId (data workOrder)) of
                        None \<Rightarrow> reasons1
                      | Some workCenter \<Rightarrow>
                          (case conflicting of
                             [] \<Rightarrow> reasons1
                           | c # cs \<Rightarrow> reasons1 @ [''Work center busy with: '' @ workOrderNumber (data c)]))
      in if length reasons2 > 0 then joinWith ''; '' reasons2 else ''Rescheduled for optimization'')"

function showNat :: "nat \<Rightarrow> string" where
  "showNat n = (if n < 10 then [char_of (48 + n)] else showNat (n div 10) @ [char_of (48 + n mod 10)])"
  by pat_completeness auto
termination
  by (relation "measure id") auto

definition showInt :: "int \<Rightarrow> string" where
  "showInt i = (if i < 0 then ''-'' @ showNat (nat (- i)) else showNat (nat i))"

definition generateExplanation :: "WorkOrderChange list \<Rightarrow> string" where
  "generateExplanation chs =
     (if length chs = 0 then ''No changes needed - schedule is valid''
      else
        let totalDelay = foldl (\<lambda>sum c. sum + delayMinutes c) 0 chs;
            avgDelay = mathRound (toDouble (of_int totalDelay / of_int (int (length chs))))
        in ''Rescheduled '' @ showNat (length chs) @ '' work order(s). ''
           @ ''Total delay: '' @ showInt totalDelay @ '' minutes. ''
           @ ''Average delay: '' @ showInt avgDelay @ '' minutes per order.'')"

definition utilizationOf :: "WorkOrder list \<Rightarrow> WorkCenter \<Rightarrow> rat" where
  \<comment> \<open>the body of \<open>workCenters.forEach\<close> in \<open>calculateMetrics\<close>; the two sums are sums of
      integers, which JavaScript adds exactly below 2 to the power 53\<close>
  "utilizationOf wos wc =
     (let orders = filter (\<lambda>wo. workCenterId (data wo) = docId wc) wos;
          totalWorkingMinutes = foldl (\<lambda>sum wo. sum + durationMinutes (data wo)) 0 orders;
          weeklyShiftMinutes = foldl (\<lambda>sum shift. sum + (endHour shift - startHour shift) * 60) 0
                                 (shifts (data wc));
          utilization = (if weeklyShiftMinutes > 0
                         then toDouble (toDouble (of_int totalWorkingMinutes / of_int weeklyShiftMinutes)
                                          * 100)
                         else (0 :: rat))
      in toDouble (of_int (mathRound (toDouble (utilization * 100))) / 100))"

fun utilizationRecord ::
  "WorkOrder list \<Rightarrow> WorkCenter list \<Rightarrow> (string \<times> rat) list \<Rightarrow> (string \<times> rat) list" where
  \<comment> \<open>\<open>workCenters.forEach\<close> in \<open>calculateMetrics\<close>, writing \<open>workCenterUtilization[wc.docId]\<close>\<close>
  "utilizationRecord wos [] util = util"
| "utilizationRecord wos (wc # rest) util =
     utilizationRecord wos rest (AList.update (docId wc) (utilizationOf wos wc) util)"

definition calculateMetrics ::
  "WorkOrderChange list \<Rightarrow> WorkOrder list \<Rightarrow> WorkCenter list \<Rightarrow> OptimizationMetrics" where
  "calculateMetrics chs wos wcs =
     \<lparr>totalDelayMinutes = foldl (\<lambda>sum c. sum + max 0 (delayMinutes c)) 0 chs,
      workOrdersAffected = length chs,
      workCenterUtilization = utilizationRecord wos wcs []\<rparr>"

text \<open>
  The loop of \<open>reflow\<close>. \<open>updatedWorkOrders\<close> and \<open>sortedWorkOrders\<close> hold the same objects;
  the loop writes to the object it visits, and every later read, through either array,
  sees the write. The state is the array \<open>updatedWorkOrders\<close> and the \<open>changes\<close> so far;
  the object visited is named by its position.
\<close>

definition processWorkOrder ::
  "WorkCenter list \<Rightarrow> nat \<Rightarrow> WorkOrder list \<times> WorkOrderChange list
     \<Rightarrow> error + WorkOrder list \<times> WorkOrderChange list" where
  "processWorkOrder wcs i st =
     (case st of (wos, chs) \<Rightarrow>
        let workOrder = wos ! i
        in if isMaintenance (data workOrder) then Inr (wos, chs)
           else
             (case calculateEarliestStartTime workOrder wos wcs of
                Inl e \<Rightarrow> Inl e
              | Inr earliestStart \<Rightarrow>
                  if earliestStart \<noteq> startDate (data workOrder) then
                    (case workCenterMapGet wcs (workCenterId (data workOrder)) of
                       None \<Rightarrow> Inl TypeError
                     | Some workCenter \<Rightarrow>
                         (case calculateEndDateWithShifts earliestStart
                                 (durationMinutes (data workOrder)) (shifts (data workCenter)) of
                            Inl e \<Rightarrow> Inl e
                          | Inr newEnd \<Rightarrow>
                              let moved = workOrder\<lparr>data :=
                                    (data workOrder)\<lparr>startDate := earliestStart, endDate := newEnd\<rparr>\<rparr>;
                                  wos' = wos[i := moved];
                                  delay = calculateDelayMinutes (endDate (data workOrder)) newEnd
                              in Inr (wos',
                                      chs @ [\<lparr>workOrderId = docId workOrder,
                                               changedWorkOrderNumber = workOrderNumber (data workOrder),
                                               originalStartDate = startDate (data workOrder),
                                               originalEndDate = endDate (data workOrder),
                                               newStartDate = earliestStart,
                                               newEndDate = newEnd,
                                               delayMinutes = delay,
                                               reason = generateChangeReason moved wos' wcs\<rparr>])))
                  else Inr (wos, chs)))"

fun reflowLoop ::
  "WorkCenter list \<Rightarrow> nat list \<Rightarrow> WorkOrder list \<times> WorkOrderChange list
     \<Rightarrow> error + WorkOrder list \<times> WorkOrderChange list" where
  "reflowLoop wcs [] st = Inr st"
| "reflowLoop wcs (i # rest) st =
     (case processWorkOrder wcs i st of
        Inl e \<Rightarrow> Inl e
      | Inr st' \<Rightarrow> reflowLoop wcs rest st')"

definition reflow :: "ReflowInput \<Rightarrow> error + ReflowResult" where
  "reflow input =
     (let updated = map (\<lambda>wo. wo\<lparr>data := data wo\<rparr>) (workOrders input)
      in case topologicalSort updated of
           Inl e \<Rightarrow> Inl e
         | Inr sortedWorkOrders \<Rightarrow>
             (case reflowLoop (workCenters input) sortedWorkOrders (updated, []) of
                Inl e \<Rightarrow> Inl e
              | Inr (wos, chs) \<Rightarrow>
                  (case validateAll wos (workCenters input) of
                     Inl e \<Rightarrow> Inl e
                   | Inr errors \<Rightarrow>
                       if length errors > 0 then Inl (InvalidSchedule errors)
                       else Inr \<lparr>updatedWorkOrders = wos,
                                 changes = chs,
                                 explanation = generateExplanation chs,
                                 metrics = calculateMetrics chs wos (workCenters input)\<rparr>)))"

section \<open>Notions of the specification and example schedules\<close>

text \<open>
  The weekly minutes of a work center as the specification counts them,
  \<open>\<Sum> (endHour - startHour) * 60\<close> over its shifts.
\<close>

definition weeklyShiftMinutes :: "WorkCenter \<Rightarrow> int" where
  "weeklyShiftMinutes wc = (\<Sum>s\<leftarrow>shifts (data wc). (endHour s - startHour s) * 60)"

text \<open>The shifts of the repository's tests: Monday to Friday, 08:00 to 17:00.\<close>

definition standardShifts :: "Shift list" where
  "standardShifts = map (\<lambda>d. \<lparr>dayOfWeek = d, startHour = 8, endHour = 17\<rparr>) [1, 2, 3, 4, 5]"

definition mkWorkOrder ::
  "string \<Rightarrow> string \<Rightarrow> string \<Rightarrow> string \<Rightarrow> int \<Rightarrow> bool \<Rightarrow> string list \<Rightarrow> WorkOrder" where
  "mkWorkOrder ident wc s e dur maint deps =
     \<lparr>docId = ident, docType = ''workOrder'',
      data = \<lparr>workOrderNumber = ident, manufacturingOrderId = ''mo-1'', workCenterId = wc,
              startDate = s, endDate = e, durationMinutes = dur, isMaintenance = maint,
              dependsOnWorkOrderIds = deps, setupTimeMinutes = None\<rparr>\<rparr>"

definition mkWorkCenter :: "string \<Rightarrow> Shift list \<Rightarrow> MaintenanceWindow list \<Rightarrow> WorkCenter" where
  "mkWorkCenter ident sh ws =
     \<lparr>docId = ident, docType = ''workCenter'',
      data = \<lparr>name = ident, shifts = sh, maintenanceWindows = ws\<rparr>\<rparr>"


text \<open>A parent that ends at the very instant, and with the very string, its child starts at.\<close>

definition adjacentParent :: WorkOrder where
  "adjacentParent =
     mkWorkOrder ''wo-1'' ''wc-1'' ''2026-02-10T08:00:00.000Z'' ''2026-02-10T12:00:00.000Z'' 240 False []"

definition adjacentChild :: WorkOrder where
  "adjacentChild =
     mkWorkOrder ''wo-2'' ''wc-2'' ''2026-02-10T12:00:00.000Z'' ''2026-02-10T14:00:00.000Z'' 120 False [''wo-1'']"

text \<open>
  A schedule whose dates are spelled in two ISO forms: the parent's end has no
  milliseconds field, the child's start has one; both denote 12:00:00 UTC. The second
  input spells the same instants in the form that \<open>toISO\<close> prints.
\<close>

definition noonParent :: WorkOrder where
  "noonParent =
     mkWorkOrder ''wo-1'' ''wc-1'' ''2026-02-10T08:00:00.000Z'' ''2026-02-10T12:00:00Z'' 240 False []"

definition noonChild :: WorkOrder where
  "noonChild =
     mkWorkOrder ''wo-2'' ''wc-2'' ''2026-02-10T12:00:00.000Z'' ''2026-02-10T13:00:00.000Z'' 60 False
       [''wo-1'']"




text \<open>
  A maintenance work order that ends half a second after noon, written with a
  milliseconds field, and a work order that depends on it and starts at noon, written
  without one.
\<close>

definition lateParent :: WorkOrder where
  "lateParent =
     mkWorkOrder ''wo-1'' ''wc-1'' ''2026-02-10T08:00:00.000Z'' ''2026-02-10T12:00:00.500Z'' 240 True []"

definition earlyChild :: WorkOrder where
  "earlyChild =
     mkWorkOrder ''wo-2'' ''wc-2'' ''2026-02-10T12:00:00Z'' ''2026-02-10T13:00:00Z'' 60 False [''wo-1'']"

definition mixedDependencyInput :: ReflowInput where
  "mixedDependencyInput =
     \<lparr>workOrders = [lateParent, earlyChild],
      workCenters = [mkWorkCenter ''wc-1'' standardShifts [], mkWorkCenter ''wc-2'' standardShifts []],
      manufacturingOrders = []\<rparr>"

text \<open>
  A work order that needs a whole shift day, and two maintenance work orders on its work
  center that end within the same second, one written with milliseconds and one without.
\<close>

definition busyCenter :: WorkCenter where
  "busyCenter = mkWorkCenter ''wc-1'' standardShifts []"

definition candidateOrder :: WorkOrder where
  "candidateOrder =
     mkWorkOrder ''wo-3'' ''wc-1'' ''2026-02-10T08:00:00.000Z'' ''2026-02-10T16:00:00.000Z'' 480 False []"

definition blockerA :: WorkOrder where
  "blockerA =
     mkWorkOrder ''wo-a'' ''wc-1'' ''2026-02-10T12:00:00Z'' ''2026-02-10T12:00:00.500Z'' 0 True []"

definition blockerB :: WorkOrder where
  "blockerB =
     mkWorkOrder ''wo-b'' ''wc-1'' ''2026-02-10T08:30:00Z'' ''2026-02-10T12:00:00Z'' 210 True []"

text \<open>
  The working time between two instants as the specification means it: the number of
  milliseconds \<open>t\<close> with \<open>a \<le> t < b\<close> that lie inside shift hours, by the program's own
  test \<open>isWithinShiftHours\<close>.
\<close>

definition workingMs :: "Shift list \<Rightarrow> DateTime \<Rightarrow> DateTime \<Rightarrow> int" where
  "workingMs sh a b = int (length (filter (\<lambda>t. withinShiftHours t sh) [a..b - 1]))"

text \<open>
  A work order's \<open>endDate\<close> is consistent when it is the very string that
  \<open>calculateEndDateWithShifts\<close> returns for its \<open>startDate\<close>, its \<open>durationMinutes\<close> and the
  shifts of its work center.
\<close>

definition consistentEnd :: "WorkCenter list \<Rightarrow> WorkOrder \<Rightarrow> bool" where
  "consistentEnd wcs wo \<longleftrightarrow>
     (\<exists>wc. workCenterMapGet wcs (workCenterId (data wo)) = Some wc
        \<and> calculateEndDateWithShifts (startDate (data wo)) (durationMinutes (data wo))
              (shifts (data wc)) = Inr (endDate (data wo)))"

text \<open>A work order without its two dates: what \<open>reflow\<close> never writes.\<close>

definition staticPart :: "WorkOrder \<Rightarrow> WorkOrder" where
  "staticPart wo = wo\<lparr>data := (data wo)\<lparr>startDate := [], endDate := []\<rparr>\<rparr>"

text \<open>
  A work order whose stored \<open>endDate\<close> (09:00) is not the end of its 120 minutes of work
  from 08:00, and a second one that depends on it.
\<close>

definition staleEndInput :: ReflowInput where
  "staleEndInput =
     \<lparr>workOrders =
        [mkWorkOrder ''wo-1'' ''wc-1'' ''2026-02-10T08:00:00.000Z'' ''2026-02-10T09:00:00.000Z'' 120 False [],
         mkWorkOrder ''wo-2'' ''wc-1'' ''2026-02-10T07:00:00.000Z'' ''2026-02-10T08:00:00.000Z'' 60 False
           [''wo-1'']],
      workCenters = [mkWorkCenter ''wc-1'' standardShifts []],
      manufacturingOrders = []\<rparr>"

text \<open>A maintenance work order, and a work order on the same work center that overlaps it.\<close>

definition maintenanceOrderInput :: ReflowInput where
  "maintenanceOrderInput =
     \<lparr>workOrders =
        [mkWorkOrder ''wo-m'' ''wc-1'' ''2026-02-10T13:00:00.000Z'' ''2026-02-10T15:00:00.000Z'' 120 True [],
         mkWorkOrder ''wo-1'' ''wc-1'' ''2026-02-10T12:00:00.000Z'' ''2026-02-10T14:00:00.000Z'' 120 False []],
      workCenters = [mkWorkCenter ''wc-1'' standardShifts []],
      manufacturingOrders = []\<rparr>"

text \<open>One step of the grouping loop of \<open>validateWorkCenterConflicts\<close>.\<close>

definition groupStep :: "(string \<times> WorkOrder list) list \<Rightarrow> WorkOrder \<Rightarrow> (string \<times> WorkOrder list) list" where
  "groupStep groups wo =
     (let wcId = workCenterId (data wo);
          groups1 = (if map_of groups wcId = None then AList.update wcId [] groups else groups)
      in (case map_of groups1 wcId of
            None \<Rightarrow> groups1
          | Some orders \<Rightarrow> AList.update wcId (orders @ [wo]) groups1))"

text \<open>
  The input of a second run: the work orders that \<open>reflow\<close> returned, with the work
  centers and the manufacturing orders of the first input.
\<close>

definition rerunInput :: "ReflowInput \<Rightarrow> ReflowResult \<Rightarrow> ReflowInput" where
  "rerunInput input r =
     \<lparr>workOrders = updatedWorkOrders r, workCenters = workCenters input,
      manufacturingOrders = manufacturingOrders input\<rparr>"


text \<open>
  The \<open>endDate\<close> of a work order covers its duration when it denotes an instant that is
  not before the one \<open>calculateEndDateWithShifts\<close> returns for its \<open>startDate\<close>, its
  \<open>durationMinutes\<close> and the shifts of its work center.
\<close>

definition endCoversDuration :: "WorkCenter list \<Rightarrow> WorkOrder \<Rightarrow> bool" where
  "endCoversDuration wcs wo =
     (case workCenterMapGet wcs (workCenterId (data wo)) of
        None \<Rightarrow> False
      | Some wc \<Rightarrow>
          (case calculateEndDateWithShifts (startDate (data wo)) (durationMinutes (data wo))
                  (shifts (data wc)) of
             Inl err \<Rightarrow> False
           | Inr e \<Rightarrow> fromISO e \<le> fromISO (endDate (data wo))))"


text \<open>
  The input of the repository's test \<^emph>\<open>should handle work order spanning multiple weeks\<close>:
  4500 minutes of work stored as the interval from 08:00 to 17:00 of one day.
\<close>

definition longOrderInput :: ReflowInput where
  "longOrderInput =
     \<lparr>workOrders =
        [mkWorkOrder ''wo-1'' ''wc-1'' ''2026-02-10T08:00:00.000Z'' ''2026-02-10T17:00:00.000Z'' 4500 False []],
      workCenters = [mkWorkCenter ''wc-1'' standardShifts []],
      manufacturingOrders = []\<rparr>"


text \<open>
  The dependency relation of a list of work orders: \<open>a\<close> depends on \<open>b\<close> when \<open>b\<close> is in
  the \<open>dependsOnWorkOrderIds\<close> of the work order with \<open>docId\<close> \<open>a\<close> (the last one, if
  several carry that \<open>docId\<close>). The work orders contain a dependency cycle when some
  \<open>docId\<close> reaches itself along this relation.
\<close>

definition dependencyEdges :: "WorkOrder list \<Rightarrow> (string \<times> string) set" where
  "dependencyEdges wos =
     {(a, b). \<exists>wo. workOrderMapGet wos a = Some wo \<and> b \<in> set (dependsOnWorkOrderIds (data wo))}"




text \<open>
  Notions for the depth-first search of \<open>detectCycles\<close>: the edges of a graph, from a node
  to each of its parents; the nodes that are still \<open>WHITE\<close>; the invariant of the search
  (the colors cover the nodes, every edge ends in a node, the parents of a \<open>BLACK\<close> node
  are \<open>BLACK\<close>, and no \<open>BLACK\<close> node lies on a cycle); and the way the colors move during
  a call that finds no cycle (some \<open>WHITE\<close> nodes become \<open>BLACK\<close>).
\<close>

definition edges :: "Graph \<Rightarrow> (string \<times> string) set" where
  "edges g = {(a, b). \<exists>node. map_of g a = Some node \<and> b \<in> set (parents node)}"

definition whites :: "(string \<rightharpoonup> Color) \<Rightarrow> string set" where
  "whites c = {x. c x = Some WHITE}"

definition searchInv :: "Graph \<Rightarrow> (string \<rightharpoonup> Color) \<Rightarrow> bool" where
  "searchInv g c \<longleftrightarrow>
     dom c = dom (map_of g)
     \<and> (\<forall>a b. (a, b) \<in> edges g \<longrightarrow> b \<in> dom (map_of g))
     \<and> (\<forall>a b. c a = Some BLACK \<longrightarrow> (a, b) \<in> edges g \<longrightarrow> c b = Some BLACK)
     \<and> (\<forall>a. c a = Some BLACK \<longrightarrow> (a, a) \<notin> (edges g)\<^sup>+)"

definition advance :: "(string \<rightharpoonup> Color) \<Rightarrow> (string \<rightharpoonup> Color) \<Rightarrow> bool" where
  "advance c c' \<longleftrightarrow> (\<forall>y. c' y = c y \<or> (c y = Some WHITE \<and> c' y = Some BLACK))"

section \<open>Overlap predicates\<close>

text \<open>
  Claim C7. \<open>timeRangesOverlap(a0, a1, b0, b1)\<close> holds if and only if the instant of \<open>a0\<close>
  is before that of \<open>b1\<close> and the instant of \<open>a1\<close> is after that of \<open>b0\<close>; an interval
  that starts where the first one ends does not overlap it; and
  \<open>overlapsWithMaintenance(start, end, windows)\<close> holds if and only if some window overlaps
  \<open>[start, end)\<close> under that same predicate.
\<close>

theorem overlap_half_open:
  "(timeRangesOverlap a0 a1 b0 b1 \<longleftrightarrow> fromISO a0 < fromISO b1 \<and> fromISO a1 > fromISO b0)
   \<and> \<not> timeRangesOverlap a0 a1 a1 b1
   \<and> (overlapsWithMaintenance s e windows \<longleftrightarrow>
        (\<exists>w \<in> set windows. timeRangesOverlap s e (windowStartDate w) (windowEndDate w)))"
  by (auto simp: timeRangesOverlap_def overlapsWithMaintenance_def Let_def list_ex_iff)

section \<open>The dependency check of the validator\<close>

text \<open>
  Claim C4. The check that \<open>validateDependencies\<close> runs on a (child, parent) pair should
  emit an error if and only if the parent ends strictly after the child starts, and none
  when the two instants are equal. The program compares the two stored ISO strings
  (\<open>parent.data.endDate > wo.data.startDate\<close>), so on dates spelled in different forms
  it fails both ways: a parent that ends at 12:00:00.500, written with milliseconds,
  draws no error against a child that starts at 12:00:00, written without; and a parent
  that ends at 12:00:00, written without milliseconds, draws an error against a child
  that starts at that very instant, written with them.
\<close>

theorem dependency_check_by_string_order:
  "fromISO (startDate (data earlyChild)) < fromISO (endDate (data lateParent))
   \<and> dependencyCheck earlyChild lateParent = []
   \<and> validateDependencies [lateParent, earlyChild] = []
   \<and> fromISO (endDate (data noonParent)) = fromISO (startDate (data noonChild))
   \<and> dependencyCheck noonChild noonParent =
       [\<lparr>errorType = DEPENDENCY_VIOLATION,
         message = ''Work order wo-2 starts before dependency wo-1 completes'',
         workOrderIds = [''wo-2'', ''wo-1'']\<rparr>]
   \<and> validateDependencies [noonParent, noonChild] =
       [\<lparr>errorType = DEPENDENCY_VIOLATION,
         message = ''Work order wo-2 starts before dependency wo-1 completes'',
         workOrderIds = [''wo-2'', ''wo-1'']\<rparr>]"
  by code_simp

section \<open>Metrics\<close>











section \<open>Slot search\<close>

lemma foldl_earliest:
  fixes a :: string
  shows "foldl (\<lambda>earliest period. if snd period < earliest then snd period else earliest) a ps
           \<in> insert a (snd ` set ps)
         \<and> (\<forall>p \<in> set ps.
              foldl (\<lambda>earliest period. if snd period < earliest then snd period else earliest) a ps
                \<le> snd p)"
proof (induction ps arbitrary: a)
  case Nil
  then show ?case by simp
next
  case (Cons p ps)
  let ?a' = "if snd p < a then snd p else a"
  have le: "foldl (\<lambda>earliest period. if snd period < earliest then snd period else earliest) b ps \<le> b"
    for b :: string
    by (induction ps arbitrary: b) (auto intro: order_trans less_imp_le)
  from Cons.IH[of ?a'] le[of ?a'] show ?case
    by (auto split: if_splits)
qed

lemma blockingPeriods_set:
  "set (blockingPeriods s e wo allWos wc) =
     {(startDate (data other), endDate (data other)) | other.
        other \<in> set allWos \<and> docId other \<noteq> docId wo
        \<and> workCenterId (data other) = workCenterId (data wo)
        \<and> timeRangesOverlap s e (startDate (data other)) (endDate (data other))}
     \<union> {(windowStartDate w, windowEndDate w) | w.
        w \<in> set (maintenanceWindows (data wc))
        \<and> timeRangesOverlap s e (windowStartDate w) (windowEndDate w)}"
  by (auto simp: blockingPeriods_def)

lemma isSlotAvailable_blocking:
  "isSlotAvailable s e wo allWos wc \<longleftrightarrow> blockingPeriods s e wo allWos wc = []"
  by (auto simp: isSlotAvailable_def blockingPeriods_def Let_def overlapsWithMaintenance_def
      timeRangesOverlap_def list_ex_iff filter_empty_conv)

text \<open>
  What the slot search does, for every input. The blocking periods of a candidate
  interval are the intervals of the other work orders of the work center (maintenance
  work orders among them) and the maintenance windows that overlap it; the candidate is
  rejected exactly when there is one; the next candidate is then an end of a blocking
  period that is least in the order of the ISO strings; and the advance by one hour is
  what \<open>findNextPotentialStart\<close> returns when nothing blocks.
\<close>

lemma slot_search_steps:
  "(isSlotAvailable s e wo allWos wc \<longleftrightarrow> blockingPeriods s e wo allWos wc = [])
   \<and> (blockingPeriods s e wo allWos wc \<noteq> [] \<longrightarrow>
        findNextPotentialStart s e wo allWos wc \<in> snd ` set (blockingPeriods s e wo allWos wc)
        \<and> (\<forall>b \<in> set (blockingPeriods s e wo allWos wc).
              findNextPotentialStart s e wo allWos wc \<le> snd b))
   \<and> (blockingPeriods s e wo allWos wc = [] \<longrightarrow>
        findNextPotentialStart s e wo allWos wc = toISO (fromISO s + msPerHour))
   \<and> (adjustToShiftStart c wc = Inr s
        \<and> calculateEndDateWithShifts s (durationMinutes (data wo)) (shifts (data wc)) = Inr e
        \<and> \<not> isSlotAvailable s e wo allWos wc \<longrightarrow>
        slotLoop (Suc n) c wo allWos wc
          = slotLoop n (findNextPotentialStart s e wo allWos wc) wo allWos wc)"
proof (intro conjI impI)
  show "isSlotAvailable s e wo allWos wc \<longleftrightarrow> blockingPeriods s e wo allWos wc = []"
    by (rule isSlotAvailable_blocking)
next
  assume ne: "blockingPeriods s e wo allWos wc \<noteq> []"
  then obtain first rest where fr: "blockingPeriods s e wo allWos wc = first # rest"
    by (cases "blockingPeriods s e wo allWos wc") auto
  from foldl_earliest[of "snd first" "first # rest"]
  show "findNextPotentialStart s e wo allWos wc \<in> snd ` set (blockingPeriods s e wo allWos wc)"
    and "\<forall>b \<in> set (blockingPeriods s e wo allWos wc).
              findNextPotentialStart s e wo allWos wc \<le> snd b"
    by (auto simp: findNextPotentialStart_def fr simp del: foldl_Cons)
next
  assume "blockingPeriods s e wo allWos wc = []"
  then show "findNextPotentialStart s e wo allWos wc = toISO (fromISO s + msPerHour)"
    by (simp add: findNextPotentialStart_def plusHours_def)
next
  assume "adjustToShiftStart c wc = Inr s
        \<and> calculateEndDateWithShifts s (durationMinutes (data wo)) (shifts (data wc)) = Inr e
        \<and> \<not> isSlotAvailable s e wo allWos wc"
  then show "slotLoop (Suc n) c wo allWos wc
          = slotLoop n (findNextPotentialStart s e wo allWos wc) wo allWos wc"
    by simp
qed

text \<open>
  Claim C10. During the slot search every other work order of the work center,
  maintenance work orders included, is a blocker, and a rejected candidate is advanced
  to the earliest end among the blocking intervals. The program takes the least end in
  the order of the ISO strings, which is not the earliest when the ends are spelled in
  different forms: here the candidate \<open>[08:00, 16:00)\<close> is blocked by two maintenance work
  orders that end at 12:00:00.500 and at 12:00:00, and the next candidate start is
  12:00:00.500.
\<close>

theorem earliest_end_by_string_order:
  "blockingPeriods ''2026-02-10T08:00:00.000Z'' ''2026-02-10T16:00:00.000Z'' candidateOrder
      [candidateOrder, blockerA, blockerB] busyCenter
    = [(''2026-02-10T12:00:00Z'', ''2026-02-10T12:00:00.500Z''),
       (''2026-02-10T08:30:00Z'', ''2026-02-10T12:00:00Z'')]
   \<and> findNextPotentialStart ''2026-02-10T08:00:00.000Z'' ''2026-02-10T16:00:00.000Z'' candidateOrder
      [candidateOrder, blockerA, blockerB] busyCenter = ''2026-02-10T12:00:00.500Z''
   \<and> fromISO ''2026-02-10T12:00:00Z'' < fromISO ''2026-02-10T12:00:00.500Z''"
  by code_simp

section \<open>Change detection by string comparison\<close>



section \<open>Validity of the returned schedule\<close>

text \<open>
  Claim C1. When \<open>reflow\<close> returns, every work order with dependencies starts no earlier
  than each parent's \<open>endDate\<close>. The program checks this on the ISO strings, so a run can
  return a schedule in which a child starts before its parent ends: here the parent ends
  at 12:00:00.500, written with milliseconds, the child starts at 12:00:00, written
  without, and \<open>reflow\<close> returns both unchanged.
\<close>

theorem reflow_mixed_dependency:
  "\<not> isl (reflow mixedDependencyInput)
   \<and> updatedWorkOrders (projr (reflow mixedDependencyInput)) = [lateParent, earlyChild]
   \<and> dependsOnWorkOrderIds (data earlyChild) = [docId lateParent]
   \<and> fromISO (startDate (data earlyChild)) < fromISO (endDate (data lateParent))"
  by code_simp

section \<open>Shift-aware end dates\<close>

lemma startOfDay_le: "startOfDay t \<le> t"
  by (simp add: startOfDay_def msPerDay_def)

lemma nextDay_eq: "nextDay t = startOfDay t + msPerDay"
  by (simp add: nextDay_def startOfDay_def plusDays_def msPerDay_def)

lemma nextDay_gt: "t < nextDay t"
  by (simp add: nextDay_eq startOfDay_def msPerDay_def)

lemma same_day:
  assumes "startOfDay c \<le> t" "t < startOfDay c + msPerDay"
  shows "t div msPerDay = c div msPerDay" "startOfDay t = startOfDay c"
proof -
  have c: "startOfDay c = msPerDay * (c div msPerDay)"
    by (simp add: startOfDay_def minus_mod_eq_mult_div)
  show d: "t div msPerDay = c div msPerDay"
    using assms unfolding c
    by (intro int_div_pos_eq[where r = "t - msPerDay * (c div msPerDay)"]) auto
  show "startOfDay t = startOfDay c"
    using d by (simp add: startOfDay_def minus_mod_eq_mult_div)
qed

lemma findShift_same_day:
  assumes "startOfDay c \<le> t" "t < startOfDay c + msPerDay"
  shows "findShift sh t = findShift sh c"
  using same_day(1)[OF assms] by (simp add: findShift_def dayOfWeekOf_def weekday_def)

lemma currentMinutes_eq:
  "hour t * 60 + minute t = (t mod msPerDay) div msPerMinute"
proof -
  define x where "x = t mod msPerDay"
  define q where "q = x div msPerHour"
  define r where "r = x mod msPerHour"
  define q2 where "q2 = r div msPerMinute"
  define r2 where "r2 = r mod msPerMinute"
  have "msPerHour dvd msPerDay" by (simp add: msPerHour_def msPerDay_def)
  then have m: "t mod msPerHour = r"
    unfolding r_def x_def by (simp add: mod_mod_cancel)
  have x: "x = msPerHour * q + r" unfolding q_def r_def by simp
  have r: "r = msPerMinute * q2 + r2" "0 \<le> r2" "r2 < msPerMinute"
    unfolding q2_def r2_def by (simp_all add: msPerMinute_def)
  have "x = msPerMinute * (q * 60 + q2) + r2"
    using x r(1) by (simp add: msPerHour_def msPerMinute_def algebra_simps)
  then have "x div msPerMinute = q * 60 + q2"
    using r(2,3) by (rule int_div_pos_eq)
  then show ?thesis
    by (simp add: hour_def minute_def m x_def[symmetric] q_def[symmetric] q2_def[symmetric])
qed

lemma minutes_ge_iff:
  "(a * 60 \<le> x div msPerMinute) = (a * msPerHour \<le> x)"
proof -
  define q where "q = x div msPerMinute"
  define r where "r = x mod msPerMinute"
  have x: "x = 60000 * q + r" "0 \<le> r" "r < 60000"
    unfolding q_def r_def by (simp_all add: msPerMinute_def)
  show ?thesis
    unfolding q_def[symmetric] msPerHour_def using x by linarith
qed

lemma minutes_lt_iff:
  "(x div msPerMinute < a * 60) = (x < a * msPerHour)"
  using minutes_ge_iff[of a x] by linarith

lemma within_iff:
  "withinShiftHours t sh \<longleftrightarrow>
     (case findShift sh t of None \<Rightarrow> False
      | Some s \<Rightarrow> plusHours (startOfDay t) (startHour s) \<le> t \<and> t < plusHours (startOfDay t) (endHour s))"
proof (cases "findShift sh t")
  case None
  then show ?thesis by (simp add: withinShiftHours_def)
next
  case (Some s)
  have tm: "t mod msPerDay = t - startOfDay t" by (simp add: startOfDay_def)
  show ?thesis
    by (simp add: withinShiftHours_def Some currentMinutes_eq Let_def minutes_ge_iff minutes_lt_iff
        plusHours_def tm) linarith
qed

lemma workingMs_split:
  assumes "a \<le> m" "m \<le> b"
  shows "workingMs sh a b = workingMs sh a m + workingMs sh m b"
proof (cases "m = b")
  case True
  then show ?thesis by (simp add: workingMs_def)
next
  case False
  with assms have "[a..b - 1] = [a..m - 1] @ [m..b - 1]"
    by (intro upto_split1) auto
  then show ?thesis by (simp add: workingMs_def)
qed

lemma workingMs_all:
  assumes "\<And>t. a \<le> t \<Longrightarrow> t < b \<Longrightarrow> withinShiftHours t sh" "a \<le> b"
  shows "workingMs sh a b = b - a"
proof -
  have "filter (\<lambda>t. withinShiftHours t sh) [a..b - 1] = [a..b - 1]"
    using assms(1) by (intro filter_True) auto
  then show ?thesis using assms(2) by (simp add: workingMs_def)
qed

lemma workingMs_none:
  assumes "\<And>t. a \<le> t \<Longrightarrow> t < b \<Longrightarrow> \<not> withinShiftHours t sh"
  shows "workingMs sh a b = 0"
proof -
  have "filter (\<lambda>t. withinShiftHours t sh) [a..b - 1] = []"
    using assms by (intro filter_False) auto
  then show ?thesis by (simp add: workingMs_def)
qed

lemma workingMs_nonneg: "0 \<le> workingMs sh a b"
  by (simp add: workingMs_def)

lemma workingMs_pos:
  assumes "a \<le> t" "t < b" "withinShiftHours t sh"
  shows "0 < workingMs sh a b"
proof -
  have "t \<in> set (filter (\<lambda>t. withinShiftHours t sh) [a..b - 1])"
    using assms by simp
  then have "filter (\<lambda>t. withinShiftHours t sh) [a..b - 1] \<noteq> []"
    by (metis empty_iff empty_set)
  then show ?thesis by (simp add: workingMs_def)
qed

lemma shiftLoop_done: "shiftLoop n sh c 0 = (c, n)"
  by (cases n) simp_all

lemma rest_of_day:
  assumes "cur \<le> t" "t < nextDay cur"
  shows "startOfDay t = startOfDay cur" "findShift sh t = findShift sh cur"
proof -
  have a: "startOfDay cur \<le> t" using startOfDay_le[of cur] assms(1) by linarith
  have b: "t < startOfDay cur + msPerDay" using assms(2) by (simp add: nextDay_eq)
  show "startOfDay t = startOfDay cur" by (rule same_day(2)[OF a b])
  show "findShift sh t = findShift sh cur" by (rule findShift_same_day[OF a b])
qed

lemma plusHours_le_nextDay: "h \<le> 24 \<Longrightarrow> plusHours (startOfDay c) h \<le> nextDay c"
  by (simp add: plusHours_def nextDay_eq msPerHour_def msPerDay_def)

lemma findShift_mem: "findShift sh t = Some s \<Longrightarrow> s \<in> set sh"
  by (auto simp: findShift_def find_Some_iff)

lemma shiftLoop_correct:
  assumes hrs: "\<forall>s \<in> set sh. startHour s \<le> 24 \<and> endHour s \<le> 24"
  shows "shiftLoop n sh cur remaining = (e, left) \<Longrightarrow> 0 < left \<Longrightarrow> 0 \<le> remaining \<Longrightarrow>
     cur \<le> e \<and> workingMs sh cur e = remaining
     \<and> (0 < remaining \<longrightarrow> cur < e \<and> withinShiftHours (e - 1) sh)"
proof (induction n arbitrary: cur remaining)
  case 0
  then show ?case by simp
next
  case (Suc n)
  show ?case
  proof (cases "0 < remaining")
    case False
    with Suc.prems show ?thesis by (simp add: workingMs_def)
  next
    case pos: True
    note nd = nextDay_gt[of cur]
    show ?thesis
    proof (cases "findShift sh cur")
      case None
      with Suc.prems pos have run: "shiftLoop n sh (nextDay cur) remaining = (e, left)" by simp
      note ih = Suc.IH[OF run Suc.prems(2,3)]
      have "workingMs sh cur (nextDay cur) = 0"
        by (rule workingMs_none) (simp add: within_iff rest_of_day None)
      with ih nd workingMs_split[of cur "nextDay cur" e sh] show ?thesis by auto
    next
      case (Some s)
      define shiftStart where "shiftStart = plusHours (startOfDay cur) (startHour s)"
      define shiftEnd where "shiftEnd = plusHours (startOfDay cur) (endHour s)"
      from Some hrs have h24: "startHour s \<le> 24" "endHour s \<le> 24"
        by (auto dest: findShift_mem)
      have sle: "shiftStart \<le> nextDay cur" "shiftEnd \<le> nextDay cur"
        unfolding shiftStart_def shiftEnd_def using h24 by (simp_all add: plusHours_le_nextDay)
      have w: "withinShiftHours t sh \<longleftrightarrow> shiftStart \<le> t \<and> t < shiftEnd"
        if "cur \<le> t" "t < nextDay cur" for t
        using rest_of_day[OF that] by (simp add: within_iff Some shiftStart_def shiftEnd_def)
      consider (before) "cur < shiftStart"
        | (after) "\<not> cur < shiftStart" "shiftEnd \<le> cur"
        | (fits) "\<not> cur < shiftStart" "\<not> shiftEnd \<le> cur" "remaining \<le> shiftEnd - cur"
        | (spills) "\<not> cur < shiftStart" "\<not> shiftEnd \<le> cur" "\<not> remaining \<le> shiftEnd - cur"
        by blast
      then show ?thesis
      proof cases
        case before
        with Suc.prems pos Some have run: "shiftLoop n sh shiftStart remaining = (e, left)"
          by (simp add: shiftStart_def Let_def)
        note ih = Suc.IH[OF run Suc.prems(2,3)]
        have "workingMs sh cur shiftStart = 0"
          by (rule workingMs_none) (use sle w in auto)
        with ih before workingMs_split[of cur shiftStart e sh] show ?thesis by auto
      next
        case after
        with Suc.prems pos Some have run: "shiftLoop n sh (nextDay cur) remaining = (e, left)"
          by (simp add: shiftStart_def shiftEnd_def Let_def)
        note ih = Suc.IH[OF run Suc.prems(2,3)]
        have "workingMs sh cur (nextDay cur) = 0"
          by (rule workingMs_none) (use after w in auto)
        with ih nd workingMs_split[of cur "nextDay cur" e sh] show ?thesis by auto
      next
        case fits
        with Suc.prems pos Some have run: "shiftLoop n sh (cur + remaining) 0 = (e, left)"
          by (simp add: shiftStart_def shiftEnd_def Let_def)
        then have e: "e = cur + remaining" by (simp add: shiftLoop_done)
        have "workingMs sh cur (cur + remaining) = cur + remaining - cur"
          by (rule workingMs_all) (use fits sle w pos in auto)
        moreover have "withinShiftHours (cur + remaining - 1) sh"
          using fits sle pos by (subst w) auto
        ultimately show ?thesis using e pos by simp
      next
        case spills
        with Suc.prems pos Some
        have run: "shiftLoop n sh (nextDay cur) (remaining - (shiftEnd - cur)) = (e, left)"
          by (simp add: shiftStart_def shiftEnd_def Let_def)
        from spills have r: "0 \<le> remaining - (shiftEnd - cur)" "0 < remaining - (shiftEnd - cur)"
          by auto
        note ih = Suc.IH[OF run Suc.prems(2) r(1)]
        have a: "workingMs sh cur shiftEnd = shiftEnd - cur"
          by (rule workingMs_all) (use spills sle w in auto)
        have b: "workingMs sh shiftEnd (nextDay cur) = 0"
          by (rule workingMs_none) (use spills w in auto)
        have "workingMs sh cur (nextDay cur) = shiftEnd - cur"
          using workingMs_split[of cur shiftEnd "nextDay cur" sh] spills sle a b by auto
        with ih r nd workingMs_split[of cur "nextDay cur" e sh] show ?thesis by auto
      qed
    qed
  qed
qed

lemma endDateWithShifts_first:
  assumes "\<forall>s \<in> set sh. startHour s \<le> 24 \<and> endHour s \<le> 24"
    and "0 \<le> dur"
    and e: "endDateWithShifts start dur sh = Inr e"
  shows "start \<le> e \<and> workingMs sh start e = dur * msPerMinute
     \<and> (\<forall>e'. start \<le> e' \<and> e' < e \<longrightarrow> workingMs sh start e' < dur * msPerMinute)"
proof -
  from e obtain left where run: "shiftLoop 1000 sh start (dur * msPerMinute) = (e, left)"
    and left: "0 < left"
    by (auto simp: endDateWithShifts_def split: prod.splits if_splits)
  have d: "0 \<le> dur * msPerMinute" using assms(2) by (simp add: msPerMinute_def)
  note c = shiftLoop_correct[OF assms(1) run left d]
  have first: "workingMs sh start e' < dur * msPerMinute"
    if "start \<le> e'" "e' < e" for e'
  proof -
    have p: "0 < dur * msPerMinute"
    proof (rule ccontr)
      assume "\<not> 0 < dur * msPerMinute"
      with d have "dur * msPerMinute = 0" by simp
      with run have "e = start" by (simp add: shiftLoop_done)
      with that show False by simp
    qed
    with c have "withinShiftHours (e - 1) sh" by simp
    with that have "0 < workingMs sh e' e" by (intro workingMs_pos[of _ "e - 1"]) auto
    with workingMs_split[of start e' e sh] that c show ?thesis by auto
  qed
  from c first show ?thesis by blast
qed

lemma calculateEndDate_first:
  assumes "\<forall>s \<in> set sh. startHour s \<le> 24 \<and> endHour s \<le> 24"
    and "0 \<le> dur"
    and "calculateEndDateWithShifts startStr dur sh = Inr endStr"
  shows "\<exists>e. endDateWithShifts (fromISO startStr) dur sh = Inr e \<and> endStr = toISO e
     \<and> fromISO startStr \<le> e
     \<and> workingMs sh (fromISO startStr) e = dur * msPerMinute
     \<and> (\<forall>e'. fromISO startStr \<le> e' \<and> e' < e \<longrightarrow>
            workingMs sh (fromISO startStr) e' < dur * msPerMinute)"
proof -
  from assms(3) obtain e where e: "endDateWithShifts (fromISO startStr) dur sh = Inr e"
    "endStr = toISO e"
    by (auto simp: calculateEndDateWithShifts_def split: sum.splits)
  from endDateWithShifts_first[OF assms(1,2) e(1)] e show ?thesis by blast
qed

lemma shiftLoop_exhausts:
  assumes hrs: "\<forall>s \<in> set sh. endHour s \<le> 24"
  shows "remaining > int n * msPerDay \<Longrightarrow> snd (shiftLoop n sh cur remaining) = 0"
proof (induction n arbitrary: cur remaining)
  case 0
  then show ?case by simp
next
  case (Suc n)
  have d: "0 < msPerDay" by (simp add: msPerDay_def)
  have nn: "0 \<le> int n * msPerDay" by (simp add: msPerDay_def)
  from Suc.prems have big: "remaining > int n * msPerDay + msPerDay"
    by (simp add: algebra_simps)
  with d nn have pos: "0 < remaining" by linarith
  from big d have r: "remaining > int n * msPerDay" by linarith
  show ?case
  proof (cases "findShift sh cur")
    case None
    with pos Suc.IH[OF r] show ?thesis by simp
  next
    case (Some s)
    with hrs have "endHour s \<le> 24" by (auto dest: findShift_mem)
    then have "plusHours (startOfDay cur) (endHour s) \<le> nextDay cur"
      by (rule plusHours_le_nextDay)
    with startOfDay_le[of cur] have av: "plusHours (startOfDay cur) (endHour s) - cur \<le> msPerDay"
      by (simp add: nextDay_eq)
    with big have "remaining - (plusHours (startOfDay cur) (endHour s) - cur) > int n * msPerDay"
      by linarith
    note ih = Suc.IH[OF r] Suc.IH[OF this]
    from av big nn have nf: "\<not> remaining \<le> plusHours (startOfDay cur) (endHour s) - cur"
      by linarith
    show ?thesis using pos Some ih nf by (simp add: Let_def)
  qed
qed

section \<open>What the loop of reflow writes\<close>

lemma staticPart_fields:
  assumes "staticPart a = staticPart b"
  shows "docId a = docId b" "isMaintenance (data a) = isMaintenance (data b)"
    "workCenterId (data a) = workCenterId (data b)"
    "dependsOnWorkOrderIds (data a) = dependsOnWorkOrderIds (data b)"
    "durationMinutes (data a) = durationMinutes (data b)"
    "workOrderNumber (data a) = workOrderNumber (data b)"
proof -
  have "docId (staticPart a) = docId (staticPart b)"
    "isMaintenance (data (staticPart a)) = isMaintenance (data (staticPart b))"
    "workCenterId (data (staticPart a)) = workCenterId (data (staticPart b))"
    "dependsOnWorkOrderIds (data (staticPart a)) = dependsOnWorkOrderIds (data (staticPart b))"
    "durationMinutes (data (staticPart a)) = durationMinutes (data (staticPart b))"
    "workOrderNumber (data (staticPart a)) = workOrderNumber (data (staticPart b))"
    using assms by simp_all
  then show "docId a = docId b" "isMaintenance (data a) = isMaintenance (data b)"
    "workCenterId (data a) = workCenterId (data b)"
    "dependsOnWorkOrderIds (data a) = dependsOnWorkOrderIds (data b)"
    "durationMinutes (data a) = durationMinutes (data b)"
    "workOrderNumber (data a) = workOrderNumber (data b)"
    by (simp_all add: staticPart_def)
qed

lemma staticPart_moved:
  "staticPart (wo\<lparr>data := (data wo)\<lparr>startDate := s, endDate := e\<rparr>\<rparr>) = staticPart wo"
  by (simp add: staticPart_def)

lemma map_staticPart_update:
  "map staticPart (wos[i := (wos ! i)\<lparr>data := (data (wos ! i))\<lparr>startDate := s, endDate := e\<rparr>\<rparr>])
     = map staticPart wos"
proof (cases "i < length wos")
  case True
  then have "(map staticPart wos)[i := staticPart (wos ! i)] = map staticPart wos"
    by (metis length_map list_update_id nth_map)
  then show ?thesis by (simp add: map_update staticPart_moved)
next
  case False
  then have "length wos \<le> i" by simp
  then show ?thesis by (simp only: list_update_beyond)
qed

text \<open>One step of the loop: what it may change.\<close>

lemma processWorkOrder_cases:
  assumes "processWorkOrder wcs i (wos, chs) = Inr (wos', chs')"
  shows "(wos' = wos \<and> chs' = chs) \<or>
     (\<not> isMaintenance (data (wos ! i)) \<and>
      (\<exists>s e c. wos' = wos[i := (wos ! i)\<lparr>data := (data (wos ! i))\<lparr>startDate := s, endDate := e\<rparr>\<rparr>]
        \<and> chs' = chs @ [c] \<and> workOrderId c = docId (wos ! i)))"
  using assms
  by (auto simp: processWorkOrder_def Let_def split: if_splits sum.splits option.splits)

lemma processWorkOrder_frame:
  assumes "processWorkOrder wcs i (wos, chs) = Inr (wos', chs')"
  shows "length wos' = length wos"
    and "map staticPart wos' = map staticPart wos"
    and "\<forall>j. j \<noteq> i \<longrightarrow> wos' ! j = wos ! j"
    and "isMaintenance (data (wos ! i)) \<longrightarrow> wos' = wos \<and> chs' = chs"
    and "chs' = chs \<or> (\<exists>c. chs' = chs @ [c] \<and> workOrderId c = docId (wos ! i)
           \<and> \<not> isMaintenance (data (wos ! i)))"
  using processWorkOrder_cases[OF assms]
  by (auto simp: map_staticPart_update)


section \<open>Topological sort: keys and distinctness\<close>

lemma foldl_update_keys:
  assumes "distinct (map fst g)"
  shows "distinct (map fst (foldl (\<lambda>graph wo. AList.update (f wo) (h wo) graph) g wos))
    \<and> fst ` set (foldl (\<lambda>graph wo. AList.update (f wo) (h wo) graph) g wos) = fst ` set g \<union> f ` set wos"
  using assms
proof (induction wos arbitrary: g)
  case Nil
  then show ?case by simp
next
  case (Cons wo wos)
  have d: "distinct (map fst (AList.update (f wo) (h wo) g))"
    using Cons.prems by (rule distinct_update)
  from Cons.IH[OF d] show ?case
    by (auto simp: dom_update)
qed

lemma initNodes_keys:
  "distinct (map fst (initNodes wos))" "fst ` set (initNodes wos) = docId ` set wos"
  using foldl_update_keys[of "[]" docId "\<lambda>wo. \<lparr>nodeWorkOrderId = docId wo,
      parents = dependsOnWorkOrderIds (data wo), children = [], depth = 0\<rparr>" wos]
  by (simp_all add: initNodes_def)

lemma update_present_keys:
  "map_of g k = Some v \<Longrightarrow> map fst (AList.update k v' g) = map fst g"
proof -
  assume "map_of g k = Some v"
  then have "(k, v) \<in> set g" by (rule map_of_SomeD)
  then have "k \<in> fst ` set g" by force
  then show ?thesis by (simp add: update_keys)
qed

lemma addChildren_keys:
  "addChildren g wo ps = Inr g' \<Longrightarrow> map fst g' = map fst g"
proof (induction ps arbitrary: g)
  case Nil
  then show ?case by simp
next
  case (Cons p ps)
  then show ?case
    by (auto split: option.splits simp: update_present_keys)
qed

lemma linkChildren_keys:
  "linkChildren g wos = Inr g' \<Longrightarrow> map fst g' = map fst g"
proof (induction wos arbitrary: g)
  case Nil
  then show ?case by simp
next
  case (Cons wo wos)
  then show ?case
    by (auto split: sum.splits dest!: addChildren_keys)
qed

lemma buildDependencyGraph_keys:
  assumes "buildDependencyGraph wos = Inr g"
  shows "distinct (map fst g)" "fst ` set g = docId ` set wos"
proof -
  from assms have "map fst g = map fst (initNodes wos)"
    by (auto simp: buildDependencyGraph_def dest: linkChildren_keys)
  then show "distinct (map fst g)" "fst ` set g = docId ` set wos"
    using initNodes_keys[of wos] by (simp_all flip: set_map)
qed

lemma processChildren_inv:
  assumes "processChildren inDeg queue cs = (inDeg', queue')"
    and "distinct (done @ queue)"
    and "\<forall>k \<in> set (done @ queue). \<exists>d. map_of inDeg k = Some d \<and> d \<le> 0"
  shows "distinct (done @ queue')
    \<and> (\<forall>k \<in> set (done @ queue'). \<exists>d. map_of inDeg' k = Some d \<and> d \<le> 0)
    \<and> map fst inDeg' = map fst inDeg"
  using assms
proof (induction cs arbitrary: inDeg queue)
  case Nil
  then show ?case by simp
next
  case (Cons c cs)
  show ?case
  proof (cases "map_of inDeg c")
    case None
    with Cons.prems(1) have "processChildren inDeg queue cs = (inDeg', queue')" by simp
    from Cons.IH[OF this Cons.prems(2,3)] show ?thesis .
  next
    case (Some d)
    let ?inDeg1 = "AList.update c (d - 1) inDeg"
    let ?queue1 = "if d - 1 = 0 then queue @ [c] else queue"
    from Some Cons.prems(1) have run: "processChildren ?inDeg1 ?queue1 cs = (inDeg', queue')"
      by simp
    have le: "d \<le> 0" if "c \<in> set (done @ queue)"
    proof -
      from that Cons.prems(3) obtain d' where "map_of inDeg c = Some d'" "d' \<le> 0" by blast
      with Some show ?thesis by simp
    qed
    have a: "distinct (done @ ?queue1)"
    proof (cases "d - 1 = 0")
      case True
      have "c \<notin> set (done @ queue)"
        using le True by auto
      with Cons.prems(2) True show ?thesis by auto
    next
      case False
      with Cons.prems(2) show ?thesis by simp
    qed
    have b: "\<forall>k \<in> set (done @ ?queue1). \<exists>d'. map_of ?inDeg1 k = Some d' \<and> d' \<le> 0"
    proof
      fix k assume k: "k \<in> set (done @ ?queue1)"
      show "\<exists>d'. map_of ?inDeg1 k = Some d' \<and> d' \<le> 0"
      proof (cases "k = c")
        case True
        show ?thesis
        proof (cases "d - 1 = 0")
          case True
          with \<open>k = c\<close> show ?thesis by (simp add: update_conv')
        next
          case False
          with k \<open>k = c\<close> have "c \<in> set (done @ queue)" by simp
          then have "d \<le> 0" by (rule le)
          with \<open>k = c\<close> show ?thesis by (simp add: update_conv')
        qed
      next
        case False
        with k have "k \<in> set (done @ queue)" by (auto split: if_splits)
        with Cons.prems(3) False show ?thesis by (simp add: update_conv')
      qed
    qed
    from Cons.IH[OF run a b] update_present_keys[OF Some, of "d - 1"] show ?thesis by simp
  qed
qed

lemma kahn_distinct:
  "kahn g inDeg queue sortedIds = Inr res \<Longrightarrow> distinct (sortedIds @ queue) \<Longrightarrow>
   \<forall>k \<in> set (sortedIds @ queue). \<exists>d. map_of inDeg k = Some d \<and> d \<le> 0 \<Longrightarrow>
   distinct res \<and> set res \<subseteq> fst ` set inDeg"
proof (induction g inDeg queue sortedIds rule: kahn.induct)
  case (1 graph inDegree sortedIds)
  then have r: "res = sortedIds" by simp
  have "k \<in> fst ` set inDegree" if "k \<in> set sortedIds" for k
  proof -
    from that "1.prems"(3) obtain d where "map_of inDegree k = Some d" by auto
    then have "(k, d) \<in> set inDegree" by (rule map_of_SomeD)
    then show ?thesis by force
  qed
  with r "1.prems"(2) show ?case by auto
next
  case (2 graph inDegree nodeId queue sortedIds)
  from "2.prems"(1) obtain node where node: "map_of graph nodeId = Some node"
    by (auto split: option.splits)
  obtain inDeg' queue' where pc: "processChildren inDegree queue (children node) = (inDeg', queue')"
    by (cases "processChildren inDegree queue (children node)")
  from "2.prems"(1) node pc have run: "kahn graph inDeg' queue' (sortedIds @ [nodeId]) = Inr res"
    by simp
  from "2.prems"(2,3) have
    "distinct ((sortedIds @ [nodeId]) @ queue)"
    "\<forall>k \<in> set ((sortedIds @ [nodeId]) @ queue). \<exists>d. map_of inDegree k = Some d \<and> d \<le> 0"
    by auto
  from processChildren_inv[OF pc this]
  have inv: "distinct ((sortedIds @ [nodeId]) @ queue')"
    "\<forall>k \<in> set ((sortedIds @ [nodeId]) @ queue'). \<exists>d. map_of inDeg' k = Some d \<and> d \<le> 0"
    "map fst inDeg' = map fst inDegree"
    by blast+
  from "2.IH"[OF node pc[symmetric] run inv(1,2)]
  have "distinct res \<and> set res \<subseteq> fst ` set inDeg'" .
  moreover have "fst ` set inDeg' = fst ` set inDegree"
    using inv(3) by (metis set_map)
  ultimately show ?case by simp
qed

lemma lastIndexOf_Some:
  "lastIndexOf wos ident = Some i \<Longrightarrow> i < length wos \<and> docId (wos ! i) = ident"
proof -
  assume "lastIndexOf wos ident = Some i"
  then have f: "find (\<lambda>i. docId (wos ! i) = ident) (rev [0..<length wos]) = Some i"
    by (simp add: lastIndexOf_def split: option.splits)
  then obtain j where j: "j < length (rev [0..<length wos])"
    "docId (wos ! (rev [0..<length wos] ! j)) = ident" "i = rev [0..<length wos] ! j"
    by (auto simp: find_Some_iff)
  from j(1,3) have "i \<in> set (rev [0..<length wos])" by (metis nth_mem)
  with j show ?thesis by simp
qed

lemma lookupAll_valid:
  "lookupAll wos ids = Inr is \<Longrightarrow> \<forall>i \<in> set is. i < length wos"
proof (induction ids arbitrary: "is")
  case Nil
  then show ?case by simp
next
  case (Cons ident ids)
  then show ?case
    by (auto split: option.splits sum.splits dest: lastIndexOf_Some)
qed

lemma topologicalSort_distinct:
  assumes "topologicalSort wos = Inr is"
  shows "distinct (map docId wos)" and "\<forall>i \<in> set is. i < length wos"
proof -
  from assms obtain g where g: "buildDependencyGraph wos = Inr g"
    by (auto simp: topologicalSort_def split: sum.splits)
  define inDegree where "inDegree = map (\<lambda>(ident, node). (ident, int (length (parents node)))) g"
  define queue where "queue = map fst (filter (\<lambda>(ident, degree). degree = 0) inDegree)"
  from assms g obtain sortedIds where k: "kahn g inDegree queue [] = Inr sortedIds"
    and len: "length sortedIds = length wos" and la: "lookupAll wos sortedIds = Inr is"
    by (auto simp: topologicalSort_def Let_def inDegree_def queue_def
        split: sum.splits option.splits if_splits)
  from la show "\<forall>i \<in> set is. i < length wos" by (rule lookupAll_valid)
  have keys: "map fst inDegree = map fst g"
    by (simp add: inDegree_def case_prod_unfold comp_def)
  with buildDependencyGraph_keys[OF g] have dk: "distinct (map fst inDegree)"
    and sk: "fst ` set inDegree = docId ` set wos"
    by (simp_all flip: set_map)
  have dq: "distinct ([] @ queue)"
    using dk by (simp add: queue_def distinct_map_filter)
  have zq: "\<forall>k \<in> set ([] @ queue). \<exists>d. map_of inDegree k = Some d \<and> d \<le> 0"
    using dk by (auto simp: queue_def)
  from kahn_distinct[OF k dq zq] sk have ds: "distinct sortedIds" "set sortedIds \<subseteq> docId ` set wos"
    by simp_all
  have "length wos = card (set sortedIds)" using ds(1) len by (simp add: distinct_card)
  also have "\<dots> \<le> card (docId ` set wos)" using ds(2) by (intro card_mono) auto
  finally have "length (map docId wos) \<le> card (set (map docId wos))" by simp
  then show "distinct (map docId wos)"
    using card_length[of "map docId wos"] by (intro card_distinct) simp
qed


section \<open>The loop of reflow\<close>

lemma reflowLoop_frame:
  assumes "reflowLoop wcs is (wos, chs) = Inr (wos', chs')" and "\<forall>i \<in> set is. i < length wos"
  shows "length wos' = length wos \<and> map staticPart wos' = map staticPart wos
     \<and> (\<forall>j < length wos. isMaintenance (data (wos ! j)) \<longrightarrow> wos' ! j = wos ! j)
     \<and> (\<exists>new. chs' = chs @ new
          \<and> (\<forall>c \<in> set new. \<exists>j < length wos.
                workOrderId c = docId (wos ! j) \<and> \<not> isMaintenance (data (wos ! j))))"
  using assms
proof (induction "is" arbitrary: wos chs)
  case Nil
  then show ?case by simp
next
  case (Cons i rest)
  from Cons.prems(1) obtain w1 c1 where step: "processWorkOrder wcs i (wos, chs) = Inr (w1, c1)"
    and run: "reflowLoop wcs rest (w1, c1) = Inr (wos', chs')"
    by (auto split: sum.splits)
  note f = processWorkOrder_frame[OF step]
  from Cons.prems(2) f(1) have v: "\<forall>i \<in> set rest. i < length w1" by simp
  note ih = Cons.IH[OF run v]
  have i: "i < length wos" using Cons.prems(2) by simp
  have st: "staticPart (w1 ! j) = staticPart (wos ! j)" if "j < length wos" for j
    using f(1,2) that by (metis length_map nth_map)
  have len: "length wos' = length wos" using ih f(1) by simp
  have stat: "map staticPart wos' = map staticPart wos" using ih f(2) by simp
  have maint: "wos' ! j = wos ! j" if "j < length wos" "isMaintenance (data (wos ! j))" for j
  proof -
    have "w1 ! j = wos ! j"
    proof (cases "j = i")
      case True
      with f(4) that show ?thesis by simp
    next
      case False
      with f(3) show ?thesis by simp
    qed
    moreover from this that ih f(1) have "wos' ! j = w1 ! j" by simp
    ultimately show ?thesis by simp
  qed
  from ih obtain new where new: "chs' = c1 @ new"
    "\<forall>c \<in> set new. \<exists>j < length w1. workOrderId c = docId (w1 ! j) \<and> \<not> isMaintenance (data (w1 ! j))"
    by blast
  have new': "\<exists>j < length wos. workOrderId c = docId (wos ! j) \<and> \<not> isMaintenance (data (wos ! j))"
    if "c \<in> set new" for c
  proof -
    from that new(2) obtain j where j: "j < length w1" "workOrderId c = docId (w1 ! j)"
      "\<not> isMaintenance (data (w1 ! j))" by blast
    with f(1) have "j < length wos" by simp
    with j staticPart_fields(1,2)[OF st[OF this]] show ?thesis by auto
  qed
  from f(5) show ?case
  proof
    assume "c1 = chs"
    with new new' len stat maint show ?thesis by auto
  next
    assume "\<exists>c. c1 = chs @ [c] \<and> workOrderId c = docId (wos ! i) \<and> \<not> isMaintenance (data (wos ! i))"
    then obtain c where c: "c1 = chs @ [c]" "workOrderId c = docId (wos ! i)"
      "\<not> isMaintenance (data (wos ! i))" by blast
    have "chs' = chs @ (c # new)" using new(1) c(1) by simp
    moreover have "\<forall>c' \<in> set (c # new). \<exists>j < length wos.
        workOrderId c' = docId (wos ! j) \<and> \<not> isMaintenance (data (wos ! j))"
      using c(2,3) i new' by auto
    ultimately show ?thesis using len stat maint by blast
  qed
qed

lemma distinct_docId_index:
  assumes "distinct (map docId wos)" "i < length wos" "j < length wos"
    "docId (wos ! i) = docId (wos ! j)"
  shows "i = j"
  using nth_eq_iff_index_eq[of "map docId wos" i j] assms by simp

lemma clone_id: "map (\<lambda>wo. wo\<lparr>data := data wo\<rparr>) wos = wos"
  by (induction wos) simp_all

lemma reflow_run:
  assumes "reflow input = Inr r"
  obtains "is" where "topologicalSort (workOrders input) = Inr is"
    and "reflowLoop (workCenters input) is (workOrders input, []) = Inr (updatedWorkOrders r, changes r)"
    and "validateAll (updatedWorkOrders r) (workCenters input) = Inr []"
  using assms
  by (auto simp: reflow_def clone_id Let_def split: sum.splits prod.splits if_splits)

lemma processWorkOrder_consistent:
  assumes "processWorkOrder wcs i (wos, chs) = Inr (wos', chs')" "i < length wos"
  shows "wos' ! i = wos ! i \<or> consistentEnd wcs (wos' ! i)"
  using assms
  by (auto simp: processWorkOrder_def Let_def consistentEnd_def
      split: if_splits sum.splits option.splits)

lemma reflowLoop_consistent:
  assumes "reflowLoop wcs is (cur, chs) = Inr (fin, chs')"
    and "\<forall>i \<in> set is. i < length cur"
    and "length cur = length orig"
    and "\<forall>j < length orig. cur ! j = orig ! j \<or> consistentEnd wcs (cur ! j)"
  shows "\<forall>j < length orig. fin ! j = orig ! j \<or> consistentEnd wcs (fin ! j)"
  using assms
proof (induction "is" arbitrary: cur chs)
  case Nil
  then show ?case by simp
next
  case (Cons i rest)
  from Cons.prems(1) obtain w1 c1 where step: "processWorkOrder wcs i (cur, chs) = Inr (w1, c1)"
    and run: "reflowLoop wcs rest (w1, c1) = Inr (fin, chs')"
    by (auto split: sum.splits)
  note f = processWorkOrder_frame[OF step]
  have i: "i < length cur" using Cons.prems(2) by simp
  note c = processWorkOrder_consistent[OF step i]
  have "\<forall>j < length orig. w1 ! j = orig ! j \<or> consistentEnd wcs (w1 ! j)"
  proof (intro allI impI)
    fix j assume j: "j < length orig"
    show "w1 ! j = orig ! j \<or> consistentEnd wcs (w1 ! j)"
    proof (cases "j = i")
      case True
      with c Cons.prems(4) j show ?thesis by auto
    next
      case False
      with f(3) Cons.prems(4) j show ?thesis by simp
    qed
  qed
  moreover have "\<forall>i \<in> set rest. i < length w1" "length w1 = length orig"
    using Cons.prems(2,3) f(1) by simp_all
  ultimately show ?case using Cons.IH[OF run] by blast
qed

lemma reflow_moved_consistent:
  assumes "reflow input = Inr r" "i < length (updatedWorkOrders r)"
    "updatedWorkOrders r ! i \<noteq> workOrders input ! i"
  shows "consistentEnd (workCenters input) (updatedWorkOrders r ! i)"
proof -
  from assms(1) obtain "is" where ts: "topologicalSort (workOrders input) = Inr is"
    and run: "reflowLoop (workCenters input) is (workOrders input, []) = Inr (updatedWorkOrders r, changes r)"
    by (rule reflow_run)
  note d = topologicalSort_distinct[OF ts]
  note f = reflowLoop_frame[OF run d(2)]
  from reflowLoop_consistent[OF run d(2) refl] assms(2,3) f show ?thesis by auto
qed

text \<open>
  The loop of \<open>calculateEndDateWithShifts\<close> is capped: on more than 1000 days of minutes
  it throws.
\<close>

lemma end_date_cap:
  assumes "\<forall>s \<in> set sh. endHour s \<le> 24" and "1440000 < dur"
  shows "calculateEndDateWithShifts startStr dur sh = Inl ShiftCalculationExceeded"
proof -
  from assms(2) have "dur * msPerMinute > int 1000 * msPerDay"
    by (simp add: msPerMinute_def msPerDay_def)
  from shiftLoop_exhausts[OF assms(1) this, of "fromISO startStr"] show ?thesis
    by (auto simp: calculateEndDateWithShifts_def endDateWithShifts_def split: prod.splits)
qed

lemma long_order_facts:
  "\<not> isl (reflow longOrderInput)"
  "updatedWorkOrders (projr (reflow longOrderInput)) = workOrders longOrderInput"
  "changes (projr (reflow longOrderInput)) = []"
  "endDateWithShifts (fromISO ''2026-02-10T08:00:00.000Z'') 540 standardShifts
     = Inr (fromISO ''2026-02-10T17:00:00.000Z'')"
  "calculateEndDateWithShifts ''2026-02-10T08:00:00.000Z'' 4500 standardShifts
     = Inr ''2026-02-20T11:00:00.000Z''"
  by code_simp+

text \<open>
  Claim C2. \<open>calculateEndDateWithShifts\<close> should return the first instant by which
  \<open>durationMinutes\<close> of working time have elapsed, so that every work order that is not
  a maintenance order holds exactly \<open>durationMinutes\<close> of working time between its start
  and its end. The function does so whenever it returns (lemma \<open>calculateEndDate_first\<close>),
  but \<open>reflow\<close> calls it for the \<open>endDate\<close> only when the start of the work order
  changes. On the input of the repository's test for a work order spanning multiple
  weeks, 4500 minutes stored from 08:00 to 17:00 of one day, \<open>reflow\<close> returns the work
  order as it came: its interval holds 540 minutes of working time, and the end that the
  function computes for it is ten days later.
\<close>

theorem stale_end_returned:
  "\<not> isl (reflow longOrderInput)
   \<and> updatedWorkOrders (projr (reflow longOrderInput)) = workOrders longOrderInput
   \<and> changes (projr (reflow longOrderInput)) = []
   \<and> \<not> isMaintenance (data (workOrders longOrderInput ! 0))
   \<and> durationMinutes (data (workOrders longOrderInput ! 0)) = 4500
   \<and> workingMs standardShifts
        (fromISO (startDate (data (workOrders longOrderInput ! 0))))
        (fromISO (endDate (data (workOrders longOrderInput ! 0)))) = 540 * msPerMinute
   \<and> calculateEndDateWithShifts (startDate (data (workOrders longOrderInput ! 0))) 4500 standardShifts
        = Inr ''2026-02-20T11:00:00.000Z''"
proof -
  have h: "\<forall>s \<in> set standardShifts. startHour s \<le> 24 \<and> endHour s \<le> 24"
    by (simp add: standardShifts_def)
  have w: "workingMs standardShifts (fromISO ''2026-02-10T08:00:00.000Z'')
          (fromISO ''2026-02-10T17:00:00.000Z'') = 540 * msPerMinute"
    using endDateWithShifts_first[OF h _ long_order_facts(4)] by simp
  have f: "\<not> isMaintenance (data (workOrders longOrderInput ! 0))"
    "durationMinutes (data (workOrders longOrderInput ! 0)) = 4500"
    "startDate (data (workOrders longOrderInput ! 0)) = ''2026-02-10T08:00:00.000Z''"
    "endDate (data (workOrders longOrderInput ! 0)) = ''2026-02-10T17:00:00.000Z''"
    by (simp_all add: longOrderInput_def mkWorkOrder_def)
  from long_order_facts(1,2,3,5) w f show ?thesis by simp
qed

section \<open>Maintenance work orders\<close>

text \<open>
  Claim C5. For every input on which \<open>reflow\<close> returns, every work order with
  \<open>isMaintenance = true\<close> is in \<open>updatedWorkOrders\<close>, at its position, identical to the
  input (so with the same \<open>startDate\<close> and \<open>endDate\<close>), and no change record carries its
  \<open>docId\<close>.
\<close>

theorem maintenance_unchanged:
  assumes "reflow input = Inr r"
    and "i < length (workOrders input)"
    and "isMaintenance (data (workOrders input ! i))"
  shows "length (updatedWorkOrders r) = length (workOrders input)
    \<and> updatedWorkOrders r ! i = workOrders input ! i
    \<and> (\<forall>c \<in> set (changes r). workOrderId c \<noteq> docId (workOrders input ! i))"
proof -
  from assms(1) obtain "is" where ts: "topologicalSort (workOrders input) = Inr is"
    and run: "reflowLoop (workCenters input) is (workOrders input, []) = Inr (updatedWorkOrders r, changes r)"
    by (rule reflow_run)
  note d = topologicalSort_distinct[OF ts]
  note f = reflowLoop_frame[OF run d(2)]
  have "workOrderId c \<noteq> docId (workOrders input ! i)" if "c \<in> set (changes r)" for c
  proof
    assume e: "workOrderId c = docId (workOrders input ! i)"
    from f that obtain j where j: "j < length (workOrders input)"
      "workOrderId c = docId (workOrders input ! j)"
      "\<not> isMaintenance (data (workOrders input ! j))" by auto
    from e j(2) d(1) assms(2) j(1) have "i = j" by (intro distinct_docId_index) auto
    with j(3) assms(3) show False by simp
  qed
  with f assms(2,3) show ?thesis by blast
qed

theorem maintenance_unchanged_witness:
  "reflow maintenanceOrderInput = Inr (projr (reflow maintenanceOrderInput))
   \<and> isMaintenance (data (workOrders maintenanceOrderInput ! 0))
   \<and> map workOrderId (changes (projr (reflow maintenanceOrderInput))) = [''wo-1'']
   \<and> length (updatedWorkOrders (projr (reflow maintenanceOrderInput)))
       = length (workOrders maintenanceOrderInput)
   \<and> updatedWorkOrders (projr (reflow maintenanceOrderInput)) ! 0
       = workOrders maintenanceOrderInput ! 0"
proof -
  have "\<not> isl (reflow maintenanceOrderInput)" by code_simp
  then have run: "reflow maintenanceOrderInput = Inr (projr (reflow maintenanceOrderInput))"
    by (cases "reflow maintenanceOrderInput") auto
  have i: "0 < length (workOrders maintenanceOrderInput)"
    and m: "isMaintenance (data (workOrders maintenanceOrderInput ! 0))"
    by (simp_all add: maintenanceOrderInput_def mkWorkOrder_def)
  have c: "map workOrderId (changes (projr (reflow maintenanceOrderInput))) = [''wo-1'']"
    by code_simp
  from maintenance_unchanged[OF run i m]
  have "length (updatedWorkOrders (projr (reflow maintenanceOrderInput)))
          = length (workOrders maintenanceOrderInput)"
    and "updatedWorkOrders (projr (reflow maintenanceOrderInput)) ! 0
          = workOrders maintenanceOrderInput ! 0"
    by blast+
  with run m c show ?thesis by (intro conjI)
qed

section \<open>What an empty list of validation errors means\<close>

lemma workOrderMapGet_Some:
  "workOrderMapGet wos ident = Some p \<Longrightarrow> p \<in> set wos \<and> docId p = ident"
  by (auto simp: workOrderMapGet_def dest!: map_of_SomeD)

lemma workOrderMapGet_distinct:
  assumes "distinct (map docId wos)" "p \<in> set wos"
  shows "workOrderMapGet wos (docId p) = Some p"
proof -
  have "distinct (map fst (rev (map (\<lambda>wo. (docId wo, wo)) wos)))"
    using assms(1) by (simp add: rev_map[symmetric] comp_def distinct_rev)
  moreover have "(docId p, p) \<in> set (rev (map (\<lambda>wo. (docId wo, wo)) wos))"
    using assms(2) by auto
  ultimately show ?thesis unfolding workOrderMapGet_def by (rule map_of_is_SomeI)
qed

lemma find_docId_distinct:
  assumes "distinct (map docId wos)" "find (\<lambda>wo. docId wo = ident) wos = Some p"
  shows "workOrderMapGet wos ident = Some p"
proof -
  from assms(2) have "p \<in> set wos" "docId p = ident"
    by (auto simp: find_Some_iff)
  with workOrderMapGet_distinct[OF assms(1)] show ?thesis by auto
qed

lemma validateDependencies_empty:
  assumes "validateDependencies wos = []" "wo \<in> set wos"
    "ident \<in> set (dependsOnWorkOrderIds (data wo))" "workOrderMapGet wos ident = Some p"
  shows "endDate (data p) \<le> startDate (data wo)"
proof -
  from assms(1,2) have "dependencyErrors wos wo = []"
    by (auto simp: validateDependencies_def)
  moreover have "p \<in> set (List.map_filter (workOrderMapGet wos) (dependsOnWorkOrderIds (data wo)))"
    using assms(3,4) by (auto simp: map_filter_def intro!: image_eqI[where x = ident])
  ultimately have "dependencyCheck wo p = []"
    by (auto simp: dependencyErrors_def)
  then show ?thesis by (auto simp: dependencyCheck_def split: if_splits)
qed

lemma validateShiftBoundaries_empty:
  assumes "validateShiftBoundaries wos wcs = []" "wo \<in> set wos"
  shows "\<exists>wc. workCenterMapGet wcs (workCenterId (data wo)) = Some wc
           \<and> isWithinShiftHours (startDate (data wo)) (shifts (data wc))"
proof -
  from assms have "shiftBoundaryErrors wcs wo = []"
    by (auto simp: validateShiftBoundaries_def)
  then show ?thesis
    by (auto simp: shiftBoundaryErrors_def split: option.splits if_splits)
qed

lemma validateMaintenanceWindows_empty:
  assumes "validateMaintenanceWindows wos wcs = []" "wo \<in> set wos"
    "workCenterMapGet wcs (workCenterId (data wo)) = Some wc"
  shows "\<not> overlapsWithMaintenance (startDate (data wo)) (endDate (data wo))
            (maintenanceWindows (data wc))"
proof -
  from assms(1,2) have "maintenanceErrors wcs wo = []"
    by (auto simp: validateMaintenanceWindows_def)
  with assms(3) show ?thesis
    by (auto simp: maintenanceErrors_def split: if_splits)
qed

lemma orderedPairs_nth:
  "i < j \<Longrightarrow> j < length xs \<Longrightarrow> (xs ! i, xs ! j) \<in> set (orderedPairs xs)"
proof (induction xs arbitrary: i j)
  case Nil
  then show ?case by simp
next
  case (Cons x xs)
  show ?case
  proof (cases i)
    case 0
    with Cons.prems show ?thesis by (cases j) auto
  next
    case (Suc i')
    with Cons.prems obtain j' where "j = Suc j'" by (cases j) auto
    with Suc Cons.prems Cons.IH[of i' j'] show ?thesis by auto
  qed
qed

lemma orderedPairs_filter:
  "(a, b) \<in> set (orderedPairs xs) \<Longrightarrow> P a \<Longrightarrow> P b \<Longrightarrow> (a, b) \<in> set (orderedPairs (filter P xs))"
  by (induction xs) auto

lemma groupStep_map_of:
  "map_of (groupStep groups wo) =
     (map_of groups)(workCenterId (data wo) \<mapsto>
        (case map_of groups (workCenterId (data wo)) of None \<Rightarrow> [] | Some os \<Rightarrow> os) @ [wo])"
  by (auto simp: groupStep_def Let_def update_conv' split: option.splits)

lemma foldl_groupStep:
  "map_of (foldl groupStep groups wos) k =
     (if \<exists>wo \<in> set wos. workCenterId (data wo) = k
      then Some ((case map_of groups k of None \<Rightarrow> [] | Some os \<Rightarrow> os)
                 @ filter (\<lambda>wo. workCenterId (data wo) = k) wos)
      else map_of groups k)"
proof (induction wos arbitrary: groups)
  case Nil
  then show ?case by simp
next
  case (Cons wo wos)
  show ?case
    by (auto simp: Cons.IH groupStep_map_of)
qed

lemma groupByWorkCenter_map_of:
  assumes "wo \<in> set wos"
  shows "map_of (groupByWorkCenter wos) (workCenterId (data wo))
           = Some (filter (\<lambda>w. workCenterId (data w) = workCenterId (data wo)) wos)"
proof -
  have "groupByWorkCenter wos = foldl groupStep [] wos"
    by (simp add: groupByWorkCenter_def groupStep_def[abs_def])
  with assms show ?thesis by (auto simp: foldl_groupStep)
qed

lemma timeRangesOverlap_sym:
  "timeRangesOverlap s1 e1 s2 e2 = timeRangesOverlap s2 e2 s1 e1"
  by (auto simp: timeRangesOverlap_def)

lemma validateWorkCenterConflicts_empty:
  assumes "validateWorkCenterConflicts wos = []" "i < length wos" "j < length wos" "i \<noteq> j"
    "workCenterId (data (wos ! i)) = workCenterId (data (wos ! j))"
  shows "\<not> timeRangesOverlap (startDate (data (wos ! i))) (endDate (data (wos ! i)))
            (startDate (data (wos ! j))) (endDate (data (wos ! j)))"
proof -
  have main: "\<not> timeRangesOverlap (startDate (data (wos ! a))) (endDate (data (wos ! a)))
            (startDate (data (wos ! b))) (endDate (data (wos ! b)))"
    if "a < b" "b < length wos" "workCenterId (data (wos ! a)) = workCenterId (data (wos ! b))" for a b
  proof -
    let ?k = "workCenterId (data (wos ! b))"
    let ?os = "filter (\<lambda>w. workCenterId (data w) = ?k) wos"
    from that have "wos ! b \<in> set wos" by simp
    from groupByWorkCenter_map_of[OF this] have g: "(?k, ?os) \<in> set (groupByWorkCenter wos)"
      by (rule map_of_SomeD)
    have p: "(wos ! a, wos ! b) \<in> set (orderedPairs ?os)"
      using that by (intro orderedPairs_filter orderedPairs_nth) auto
    let ?F = "\<lambda>wcId (wo1, wo2).
         if timeRangesOverlap (startDate (data wo1)) (endDate (data wo1))
              (startDate (data wo2)) (endDate (data wo2))
         then [\<lparr>errorType = WORK_CENTER_CONFLICT,
                message = ''Work center '' @ wcId @ '' has overlapping work orders: ''
                          @ workOrderNumber (data wo1) @ '' and '' @ workOrderNumber (data wo2),
                workOrderIds = [docId wo1, docId wo2]\<rparr>]
         else []"
    from assms(1) have "\<forall>g \<in> set (groupByWorkCenter wos).
        (case g of (wcId, orders) \<Rightarrow> concat (map (?F wcId) (orderedPairs orders))) = []"
      by (simp add: validateWorkCenterConflicts_def)
    with g have "concat (map (?F ?k) (orderedPairs ?os)) = []" by fastforce
    then have "\<forall>pr \<in> set (orderedPairs ?os). ?F ?k pr = []" by simp
    from bspec[OF this p] show ?thesis by (simp split: if_splits)
  qed
  from assms(4) consider "i < j" | "j < i" by linarith
  then show ?thesis
  proof cases
    case 1
    with main[of i j] assms show ?thesis by simp
  next
    case 2
    with main[of j i] assms show ?thesis by (simp add: timeRangesOverlap_sym)
  qed
qed

lemma validateAll_empty:
  assumes "validateAll wos wcs = Inr []"
  shows "validateDependencies wos = []" "validateWorkCenterConflicts wos = []"
    "validateShiftBoundaries wos wcs = []" "validateMaintenanceWindows wos wcs = []"
  using assms by (auto simp: validateAll_def split: sum.splits option.splits)

section \<open>Topological sort reads only what reflow never writes\<close>

lemma addChildren_static: "addChildren g (staticPart wo) ps = addChildren g wo ps"
  by (induction ps arbitrary: g) (auto simp: staticPart_def split: option.splits)

lemma linkChildren_static: "linkChildren g (map staticPart wos) = linkChildren g wos"
proof (induction wos arbitrary: g)
  case Nil
  then show ?case by simp
next
  case (Cons wo wos)
  have "dependsOnWorkOrderIds (data (staticPart wo)) = dependsOnWorkOrderIds (data wo)"
    by (simp add: staticPart_def)
  then show ?case by (simp add: addChildren_static Cons.IH split: sum.splits)
qed

lemma initNodes_static: "initNodes (map staticPart wos) = initNodes wos"
  by (simp add: initNodes_def foldl_map staticPart_def)

lemma lastIndexOf_static: "lastIndexOf (map staticPart wos) ident = lastIndexOf wos ident"
proof -
  have "find (\<lambda>i. docId (map staticPart wos ! i) = ident) (rev [0..<length wos])
      = find (\<lambda>i. docId (wos ! i) = ident) (rev [0..<length wos])"
    by (rule find_cong) (auto simp: staticPart_def)
  then show ?thesis by (simp add: lastIndexOf_def)
qed

lemma lookupAll_static: "lookupAll (map staticPart wos) ids = lookupAll wos ids"
  by (induction ids) (simp_all add: lastIndexOf_static split: option.splits sum.splits)

lemma topologicalSort_staticPart: "topologicalSort (map staticPart wos) = topologicalSort wos"
  by (simp add: topologicalSort_def buildDependencyGraph_def initNodes_static linkChildren_static
      lookupAll_static Let_def split: sum.splits option.splits)

lemma topologicalSort_static:
  "map staticPart a = map staticPart b \<Longrightarrow> topologicalSort a = topologicalSort b"
proof -
  assume "map staticPart a = map staticPart b"
  then have "topologicalSort (map staticPart a) = topologicalSort (map staticPart b)" by simp
  then show ?thesis by (simp only: topologicalSort_staticPart)
qed

section \<open>A valid schedule whose ends cover the durations is a fixed point of the loop\<close>

lemma adjust_within:
  "isWithinShiftHours d (shifts (data wc)) \<Longrightarrow> adjustToShiftStart d wc = Inr d"
  by (auto simp: adjustToShiftStart_def isWithinShiftHours_def withinShiftHours_def Let_def
      split: option.splits)

lemma timeRangesOverlap_mono:
  "fromISO e \<le> fromISO e' \<Longrightarrow> timeRangesOverlap s e a b \<Longrightarrow> timeRangesOverlap s e' a b"
  by (auto simp: timeRangesOverlap_def Let_def)

lemma overlapsWithMaintenance_mono:
  "fromISO e \<le> fromISO e' \<Longrightarrow> overlapsWithMaintenance s e ws
     \<Longrightarrow> overlapsWithMaintenance s e' ws"
  by (auto simp: overlapsWithMaintenance_def Let_def list_ex_iff)

lemma latest_parent_le:
  fixes a s :: string
  shows "\<forall>p \<in> set ps. endDate (data p) \<le> s \<Longrightarrow> a \<le> s \<Longrightarrow>
    foldl (\<lambda>latest parent. if endDate (data parent) > latest then endDate (data parent) else latest)
      a ps \<le> s"
  by (induction ps arbitrary: a) auto

lemma parentsOf_mem:
  assumes "p \<in> set (parentsOf wo wos)"
  obtains ident where "ident \<in> set (dependsOnWorkOrderIds (data wo))"
    "find (\<lambda>w. docId w = ident) wos = Some p"
  using assms by (auto simp: parentsOf_def map_filter_def)

lemma slotLoop_first:
  assumes "adjustToShiftStart c wc = Inr s"
    and "calculateEndDateWithShifts s (durationMinutes (data wo)) (shifts (data wc)) = Inr e"
    and "isSlotAvailable s e wo allWos wc"
  shows "slotLoop (Suc n) c wo allWos wc = Inr s"
  using assms by simp

lemma stable_step:
  assumes val: "validateAll U wcs = Inr []"
    and dist: "distinct (map docId U)"
    and i: "i < length U"
    and em: "\<not> isMaintenance (data (U ! i)) \<longrightarrow> endCoversDuration wcs (U ! i)"
  shows "processWorkOrder wcs i (U, chs) = Inr (U, chs)"
proof (cases "isMaintenance (data (U ! i))")
  case True
  then show ?thesis by (simp add: processWorkOrder_def)
next
  case False
  let ?wo = "U ! i"
  note v = validateAll_empty[OF val]
  have mem: "?wo \<in> set U" using i by simp
  from False em obtain wc e where wc: "workCenterMapGet wcs (workCenterId (data ?wo)) = Some wc"
    and e: "calculateEndDateWithShifts (startDate (data ?wo)) (durationMinutes (data ?wo))
              (shifts (data wc)) = Inr e"
    and inst: "fromISO e \<le> fromISO (endDate (data ?wo))"
    by (auto simp: endCoversDuration_def split: option.splits sum.splits)
  from validateShiftBoundaries_empty[OF v(3) mem] wc
  have within: "isWithinShiftHours (startDate (data ?wo)) (shifts (data wc))" by auto
  have par: "endDate (data p) \<le> startDate (data ?wo)" if "p \<in> set (parentsOf ?wo U)" for p
  proof -
    from that obtain ident where ident: "ident \<in> set (dependsOnWorkOrderIds (data ?wo))"
      "find (\<lambda>w. docId w = ident) U = Some p" by (rule parentsOf_mem)
    from find_docId_distinct[OF dist ident(2)] validateDependencies_empty[OF v(1) mem ident(1)]
    show ?thesis by simp
  qed
  have "foldl (\<lambda>latest parent. if endDate (data parent) > latest then endDate (data parent) else latest)
      [] (parentsOf ?wo U) \<le> startDate (data ?wo)"
    by (rule latest_parent_le) (use par in auto)
  then have cand: "\<not> foldl (\<lambda>latest parent.
      if endDate (data parent) > latest then endDate (data parent) else latest)
      [] (parentsOf ?wo U) > startDate (data ?wo)"
    by simp
  have noconf: "filter (\<lambda>wo. docId wo \<noteq> docId ?wo
        \<and> workCenterId (data wo) = workCenterId (data ?wo)
        \<and> timeRangesOverlap (startDate (data ?wo)) e (startDate (data wo)) (endDate (data wo))) U = []"
  proof -
    have "\<not> timeRangesOverlap (startDate (data ?wo)) e (startDate (data other)) (endDate (data other))"
      if o: "other \<in> set U" "docId other \<noteq> docId ?wo"
        "workCenterId (data other) = workCenterId (data ?wo)" for other
    proof -
      from o(1) obtain j where j: "j < length U" "other = U ! j" by (auto simp: in_set_conv_nth)
      with o(2) have "i \<noteq> j" by auto
      from validateWorkCenterConflicts_empty[OF v(2) i j(1) this] o(3) j(2)
      show ?thesis by (auto dest: timeRangesOverlap_mono[OF inst])
    qed
    then show ?thesis by (auto simp: filter_empty_conv)
  qed
  have nomaint: "\<not> overlapsWithMaintenance (startDate (data ?wo)) e (maintenanceWindows (data wc))"
    using validateMaintenanceWindows_empty[OF v(4) mem wc]
    by (auto dest: overlapsWithMaintenance_mono[OF inst])
  have avail: "isSlotAvailable (startDate (data ?wo)) e ?wo U wc"
    using noconf nomaint by (simp add: isSlotAvailable_def)
  have n: "(1000::nat) = Suc 999" by simp
  from slotLoop_first[OF adjust_within[OF within] e avail, of 999]
  have "slotLoop 1000 (startDate (data ?wo)) ?wo U wc = Inr (startDate (data ?wo))"
    by simp
  then have "findNextAvailableSlot (startDate (data ?wo)) ?wo U wc = Inr (startDate (data ?wo))"
    by (simp only: findNextAvailableSlot_def)
  then have "calculateEarliestStartTime ?wo U wcs = Inr (startDate (data ?wo))"
    using cand wc by (simp add: calculateEarliestStartTime_def Let_def)
  then show ?thesis using False by (simp add: processWorkOrder_def)
qed

lemma stable_loop:
  assumes val: "validateAll U wcs = Inr []"
    and dist: "distinct (map docId U)"
    and em: "\<forall>wo \<in> set U. \<not> isMaintenance (data wo) \<longrightarrow> endCoversDuration wcs wo"
  shows "\<forall>i \<in> set is. i < length U \<Longrightarrow> reflowLoop wcs is (U, chs) = Inr (U, chs)"
proof (induction "is")
  case Nil
  then show ?case by simp
next
  case (Cons i rest)
  then have i: "i < length U" by simp
  with em have "\<not> isMaintenance (data (U ! i)) \<longrightarrow> endCoversDuration wcs (U ! i)" by simp
  from stable_step[OF val dist i this] Cons show ?case by simp
qed

section \<open>Running reflow on its own result\<close>

text \<open>
  When \<open>reflow\<close> returns and the \<open>endDate\<close> of every work order of the returned schedule
  that is not a maintenance order is not before the end that \<open>calculateEndDateWithShifts\<close>
  computes from its \<open>startDate\<close>, a second run on the returned work orders changes
  nothing.
\<close>

lemma reflow_rerun_stable:
  assumes "reflow input = Inr r"
    and "\<forall>wo \<in> set (updatedWorkOrders r).
           \<not> isMaintenance (data wo) \<longrightarrow> endCoversDuration (workCenters input) wo"
  shows "\<exists>r'. reflow (rerunInput input r) = Inr r' \<and> changes r' = []
           \<and> updatedWorkOrders r' = updatedWorkOrders r"
proof -
  let ?U = "updatedWorkOrders r"
  from assms(1) obtain "is" where ts: "topologicalSort (workOrders input) = Inr is"
    and run: "reflowLoop (workCenters input) is (workOrders input, []) = Inr (?U, changes r)"
    and val: "validateAll ?U (workCenters input) = Inr []"
    by (rule reflow_run)
  note d = topologicalSort_distinct[OF ts]
  note f = reflowLoop_frame[OF run d(2)]
  from f have st: "map staticPart ?U = map staticPart (workOrders input)" by simp
  have ts': "topologicalSort ?U = Inr is"
    using ts by (simp only: topologicalSort_static[OF st])
  note d' = topologicalSort_distinct[OF ts']
  from stable_loop[OF val d'(1) assms(2) d'(2)]
  have "reflowLoop (workCenters input) is (?U, []) = Inr (?U, [])" .
  then have loop: "reflowLoop (workCenters input) is (?U, []) = Inr (?U, [])" .
  have a: "map (\<lambda>wo. wo\<lparr>data := data wo\<rparr>) (workOrders (rerunInput input r)) = ?U"
    by (simp add: rerunInput_def clone_id)
  have b: "workCenters (rerunInput input r) = workCenters input"
    by (simp add: rerunInput_def)
  have "reflow (rerunInput input r)
      = Inr \<lparr>updatedWorkOrders = ?U, changes = [], explanation = generateExplanation [],
             metrics = calculateMetrics [] ?U (workCenters input)\<rparr>"
    unfolding reflow_def Let_def a b by (simp add: ts' loop val)
  then show ?thesis by simp
qed


lemma reflow_rerun_stable_instance:
  "\<not> isl (reflow maintenanceOrderInput)
   \<and> (\<exists>r'. reflow (rerunInput maintenanceOrderInput (projr (reflow maintenanceOrderInput))) = Inr r'
          \<and> changes r' = []
          \<and> updatedWorkOrders r' = updatedWorkOrders (projr (reflow maintenanceOrderInput)))"
proof -
  have ok: "\<not> isl (reflow maintenanceOrderInput)" by code_simp
  then have run: "reflow maintenanceOrderInput = Inr (projr (reflow maintenanceOrderInput))"
    by (cases "reflow maintenanceOrderInput") auto
  have em: "\<forall>wo \<in> set (updatedWorkOrders (projr (reflow maintenanceOrderInput))).
      \<not> isMaintenance (data wo) \<longrightarrow> endCoversDuration (workCenters maintenanceOrderInput) wo"
    by code_simp
  from reflow_rerun_stable[of maintenanceOrderInput "projr (reflow maintenanceOrderInput)"] run em ok
  show ?thesis by blast
qed

text \<open>
  Claim C6. A second run of \<open>reflow\<close> on the work orders it returned, with the work
  centers and manufacturing orders of the first input, should produce no change. \<open>reflow\<close>
  writes an \<open>endDate\<close> only when the start changes, and searches a slot with the end it
  computes, not the stored one. On \<open>staleEndInput\<close> the first run returns the first work
  order with its stored \<open>endDate\<close>, one hour before the end of its 120 minutes, and the
  second work order right after that stored end; the second run returns as well, and
  moves both work orders.
\<close>

theorem reflow_not_idempotent:
  "\<not> isl (reflow staleEndInput)
   \<and> \<not> isl (reflow (rerunInput staleEndInput (projr (reflow staleEndInput))))
   \<and> length (changes (projr (reflow (rerunInput staleEndInput (projr (reflow staleEndInput)))))) = 2"
proof -
  have a: "\<not> isl (reflow staleEndInput)" by code_simp
  have b: "\<not> isl (reflow (rerunInput staleEndInput (projr (reflow staleEndInput))))" by code_simp
  have c: "length (changes (projr (reflow (rerunInput staleEndInput (projr (reflow staleEndInput)))))) = 2"
    by code_simp
  from a b c show ?thesis by (intro conjI)
qed

section \<open>The depth-first search finds every cycle\<close>

lemma advance_refl: "advance c c"
  by (simp add: advance_def)

lemma advance_trans: "advance a b \<Longrightarrow> advance b c \<Longrightarrow> advance a c"
  unfolding advance_def
proof (intro allI)
  fix y
  assume 1: "\<forall>y. b y = a y \<or> (a y = Some WHITE \<and> b y = Some BLACK)"
    and 2: "\<forall>y. c y = b y \<or> (b y = Some WHITE \<and> c y = Some BLACK)"
  from 1 have "b y = a y \<or> (a y = Some WHITE \<and> b y = Some BLACK)" by (rule spec)
  moreover from 2 have "c y = b y \<or> (b y = Some WHITE \<and> c y = Some BLACK)" by (rule spec)
  ultimately show "c y = a y \<or> (a y = Some WHITE \<and> c y = Some BLACK)" by auto
qed

lemma advance_whites: "advance c c' \<Longrightarrow> whites c' \<subseteq> whites c"
  unfolding advance_def whites_def
proof
  fix x
  assume a: "\<forall>y. c' y = c y \<or> (c y = Some WHITE \<and> c' y = Some BLACK)"
    and x: "x \<in> {x. c' x = Some WHITE}"
  from a have "c' x = c x \<or> (c x = Some WHITE \<and> c' x = Some BLACK)" by (rule spec)
  with x show "x \<in> {x. c x = Some WHITE}" by auto
qed

lemma advance_keeps:
  assumes "advance c c'" "c y \<noteq> Some WHITE"
  shows "c' y = c y"
proof -
  from assms(1) have "c' y = c y \<or> (c y = Some WHITE \<and> c' y = Some BLACK)"
    unfolding advance_def by (rule spec)
  with assms(2) show ?thesis by simp
qed

lemma finite_whites: "searchInv g c \<Longrightarrow> finite (whites c)"
proof -
  assume "searchInv g c"
  then have "dom c = dom (map_of g)" by (simp add: searchInv_def)
  moreover have "whites c \<subseteq> dom c" by (auto simp: whites_def)
  ultimately show ?thesis using finite_dom_map_of[of g] by (simp add: finite_subset)
qed

lemma black_closed:
  assumes inv: "searchInv g c" and r: "(a, b) \<in> (edges g)\<^sup>*" and a: "c a = Some BLACK"
  shows "c b = Some BLACK"
  using r a
proof (induction rule: rtrancl_induct)
  case base
  then show ?case by simp
next
  case (step y z)
  then have "c y = Some BLACK" by simp
  with step.hyps(2) inv show ?case by (simp add: searchInv_def)
qed

lemma searchInv_gray:
  assumes inv: "searchInv g c" and x: "c x = Some WHITE"
  shows "searchInv g (c(x \<mapsto> GRAY))"
proof -
  from x have "x \<in> dom c" by auto
  then have d: "dom (c(x \<mapsto> GRAY)) = dom c" by auto
  have bl: "(c(x \<mapsto> GRAY)) a = Some BLACK \<longleftrightarrow> c a = Some BLACK" for a
    using x by auto
  from inv show ?thesis
    unfolding searchInv_def d bl by simp
qed

lemma searchInv_black:
  assumes inv: "searchInv g c" and x: "c x = Some GRAY"
    and node: "map_of g x = Some node"
    and ps: "\<forall>q \<in> set (parents node). c q = Some BLACK"
  shows "searchInv g (c(x \<mapsto> BLACK))"
proof -
  let ?c = "c(x \<mapsto> BLACK)"
  from x have "x \<in> dom c" by auto
  then have d: "dom ?c = dom c" by auto
  have succ: "c b = Some BLACK" if "(x, b) \<in> edges g" for b
    using that node ps by (auto simp: edges_def)
  have cl: "?c b = Some BLACK" if "?c a = Some BLACK" "(a, b) \<in> edges g" for a b
  proof (cases "a = x")
    case True
    with that succ have "c b = Some BLACK" by simp
    then show ?thesis by simp
  next
    case False
    with that have "c a = Some BLACK" by simp
    with inv that(2) have "c b = Some BLACK" by (simp add: searchInv_def)
    then show ?thesis by simp
  qed
  have ac: "(a, a) \<notin> (edges g)\<^sup>+" if "?c a = Some BLACK" for a
  proof (cases "a = x")
    case True
    show ?thesis
    proof
      assume "(a, a) \<in> (edges g)\<^sup>+"
      with True have "(x, x) \<in> (edges g)\<^sup>+" by simp
      then obtain q where q: "(x, q) \<in> edges g" and r: "(q, x) \<in> (edges g)\<^sup>*"
        by (auto dest: tranclD)
      from succ[OF q] have "c q = Some BLACK" .
      from black_closed[OF inv r this] x show False by simp
    qed
  next
    case False
    with that have "c a = Some BLACK" by simp
    with inv show ?thesis by (simp add: searchInv_def)
  qed
  from inv have "dom c = dom (map_of g)"
    and "\<forall>a b. (a, b) \<in> edges g \<longrightarrow> b \<in> dom (map_of g)"
    by (simp_all add: searchInv_def)
  with cl ac show ?thesis unfolding searchInv_def d by blast
qed

lemma dfsParents_total:
  assumes D: "\<And>x c p cy. searchInv g c \<Longrightarrow> c x = Some WHITE \<Longrightarrow> card (whites c) \<le> n \<Longrightarrow>
      \<exists>r c' p' cy'. dfs n g x (c, p, cy) = Some (r, (c', p', cy'))
        \<and> (\<not> r \<longrightarrow> advance c c' \<and> c' x = Some BLACK \<and> searchInv g c')"
    and inv: "searchInv g c"
    and x: "c x = Some GRAY"
    and node: "map_of g x = Some node"
    and sub: "set ps \<subseteq> set (parents node)"
    and seen: "\<forall>q \<in> set (parents node). q \<in> set ps \<or> c q = Some BLACK"
    and fuel: "card (whites c) \<le> n"
  shows "\<exists>r c' p' cy'. dfsParents n g x ps (c, p, cy) = Some (r, (c', p', cy'))
        \<and> (\<not> r \<longrightarrow> advance (c(x \<mapsto> WHITE)) c' \<and> c' x = Some BLACK \<and> searchInv g c')"
  using inv x sub seen fuel
proof (induction ps arbitrary: c p cy)
  case Nil
  then have "\<forall>q \<in> set (parents node). c q = Some BLACK" by simp
  from searchInv_black[OF Nil.prems(1,2) node this]
  have "searchInv g (c(x \<mapsto> BLACK))" .
  moreover have "advance (c(x \<mapsto> WHITE)) (c(x \<mapsto> BLACK))" by (simp add: advance_def)
  moreover have "(c(x \<mapsto> BLACK)) x = Some BLACK" by simp
  moreover have "dfsParents n g x [] (c, p, cy) = Some (False, (c(x \<mapsto> BLACK), butlast p, cy))"
    by simp
  ultimately show ?case by blast
next
  case (Cons q ps)
  note inv = Cons.prems(1) and x = Cons.prems(2)
  from Cons.prems(3) have qp: "q \<in> set (parents node)" and sub: "set ps \<subseteq> set (parents node)"
    by simp_all
  from qp node have "(x, q) \<in> edges g" by (auto simp: edges_def)
  with inv have "q \<in> dom c" by (simp add: searchInv_def)
  then obtain col where col: "c q = Some col" by auto
  show ?case
  proof (cases col)
    case GRAY
    with col have "dfsParents n g x (q # ps) (c, p, cy) = Some (True, (c, p, cy @ p @ [q]))"
      by simp
    then show ?thesis by blast
  next
    case BLACK
    from Cons.prems(4) col BLACK
    have seen: "\<forall>q' \<in> set (parents node). q' \<in> set ps \<or> c q' = Some BLACK" by auto
    from col BLACK
    have eq: "dfsParents n g x (q # ps) (c, p, cy) = dfsParents n g x ps (c, p, cy)" by simp
    from Cons.IH[OF inv x sub seen Cons.prems(5), of p cy] show ?thesis by (simp only: eq)
  next
    case WHITE
    with col have w: "c q = Some WHITE" by simp
    from D[OF inv w Cons.prems(5), of p cy] obtain r c1 p1 cy1
      where run: "dfs n g q (c, p, cy) = Some (r, (c1, p1, cy1))"
        and post: "\<not> r \<longrightarrow> advance c c1 \<and> c1 q = Some BLACK \<and> searchInv g c1"
      by blast
    show ?thesis
    proof (cases r)
      case True
      with run w have "dfsParents n g x (q # ps) (c, p, cy) = Some (True, (c1, p1, cy1))"
        by simp
      then show ?thesis by blast
    next
      case False
      with post have adv: "advance c c1" and qb: "c1 q = Some BLACK" and inv1: "searchInv g c1"
        by simp_all
      from advance_keeps[OF adv, of x] x have x1: "c1 x = Some GRAY" by simp
      have seen1: "\<forall>q' \<in> set (parents node). q' \<in> set ps \<or> c1 q' = Some BLACK"
      proof
        fix q' assume "q' \<in> set (parents node)"
        with Cons.prems(4) have "q' = q \<or> q' \<in> set ps \<or> c q' = Some BLACK" by auto
        then show "q' \<in> set ps \<or> c1 q' = Some BLACK"
          using qb advance_keeps[OF adv, of q'] by auto
      qed
      have "card (whites c1) \<le> card (whites c)"
        using advance_whites[OF adv] finite_whites[OF inv] by (rule card_mono[rotated])
      with Cons.prems(5) have fuel1: "card (whites c1) \<le> n" by simp
      from Cons.IH[OF inv1 x1 sub seen1 fuel1, of p1 cy1] obtain r2 c2 p2 cy2
        where run2: "dfsParents n g x ps (c1, p1, cy1) = Some (r2, (c2, p2, cy2))"
          and post2: "\<not> r2 \<longrightarrow> advance (c1(x \<mapsto> WHITE)) c2 \<and> c2 x = Some BLACK \<and> searchInv g c2"
        by blast
      have "advance (c(x \<mapsto> WHITE)) (c1(x \<mapsto> WHITE))"
        using adv by (simp add: advance_def)
      then have "advance (c1(x \<mapsto> WHITE)) c2 \<Longrightarrow> advance (c(x \<mapsto> WHITE)) c2"
        by (rule advance_trans)
      with post2 have post': "\<not> r2 \<longrightarrow> advance (c(x \<mapsto> WHITE)) c2 \<and> c2 x = Some BLACK \<and> searchInv g c2"
        by blast
      from run False w
      have "dfsParents n g x (q # ps) (c, p, cy) = dfsParents n g x ps (c1, p1, cy1)" by simp
      with run2 have run': "dfsParents n g x (q # ps) (c, p, cy) = Some (r2, (c2, p2, cy2))"
        by simp
      show ?thesis
        apply (rule exI[of _ r2], rule exI[of _ c2], rule exI[of _ p2], rule exI[of _ cy2])
        apply (rule conjI)
         apply (rule run')
        apply (rule post')
        done
    qed
  qed
qed

lemma dfs_total:
  assumes "searchInv g c" "c x = Some WHITE" "card (whites c) \<le> n"
  shows "\<exists>r c' p' cy'. dfs n g x (c, p, cy) = Some (r, (c', p', cy'))
        \<and> (\<not> r \<longrightarrow> advance c c' \<and> c' x = Some BLACK \<and> searchInv g c')"
  using assms
proof (induction n arbitrary: x c p cy)
  case 0
  from 0(2) have "x \<in> whites c" by (simp add: whites_def)
  with finite_whites[OF 0(1)] have "card (whites c) \<noteq> 0" by auto
  with 0(3) show ?case by simp
next
  case (Suc n)
  note inv = Suc.prems(1) and x = Suc.prems(2)
  from x have "x \<in> dom c" by auto
  with inv have "x \<in> dom (map_of g)" by (simp add: searchInv_def)
  then obtain node where node: "map_of g x = Some node" by auto
  let ?c = "c(x \<mapsto> GRAY)"
  have inv': "searchInv g ?c" using inv x by (rule searchInv_gray)
  have "whites ?c = whites c - {x}" by (auto simp: whites_def)
  moreover from x have "x \<in> whites c" by (simp add: whites_def)
  ultimately have "card (whites ?c) = card (whites c) - 1"
    using finite_whites[OF inv] by simp
  with Suc.prems(3) have fuel: "card (whites ?c) \<le> n" by simp
  have seen: "\<forall>q \<in> set (parents node). q \<in> set (parents node) \<or> ?c q = Some BLACK" by simp
  have xg: "?c x = Some GRAY" by simp
  from dfsParents_total[of g n ?c x node "parents node" "p @ [x]" cy,
      OF Suc.IH inv' xg node subset_refl seen fuel]
  obtain r c' p' cy'
    where run: "dfsParents n g x (parents node) (?c, p @ [x], cy) = Some (r, (c', p', cy'))"
      and post: "\<not> r \<longrightarrow> advance (?c(x \<mapsto> WHITE)) c' \<and> c' x = Some BLACK \<and> searchInv g c'"
    by blast
  from x have "?c(x \<mapsto> WHITE) = c" by auto
  with post have post': "\<not> r \<longrightarrow> advance c c' \<and> c' x = Some BLACK \<and> searchInv g c'" by simp
  from node
  have "dfs (Suc n) g x (c, p, cy) = dfsParents n g x (parents node) (?c, p @ [x], cy)" by simp
  with run have run': "dfs (Suc n) g x (c, p, cy) = Some (r, (c', p', cy'))" by simp
  show ?case
    apply (rule exI[of _ r], rule exI[of _ c'], rule exI[of _ p'], rule exI[of _ cy'])
    apply (rule conjI)
     apply (rule run')
    apply (rule post')
    done
qed

section \<open>The loop of detectCycles\<close>

lemma detectLoop_returns:
  assumes "searchInv g c" "card (whites c) \<le> length g"
  shows "\<exists>res. detectLoop g ks (c, p, cy) = Inr res"
  using assms
proof (induction ks arbitrary: c p cy)
  case Nil
  then show ?case by simp
next
  case (Cons k ks)
  show ?case
  proof (cases "c k = Some WHITE")
    case True
    from dfs_total[OF Cons.prems(1) True Cons.prems(2), of "[]" cy] obtain r c' p' cy'
      where run: "dfs (length g) g k (c, [], cy) = Some (r, (c', p', cy'))"
        and post: "\<not> r \<longrightarrow> advance c c' \<and> c' k = Some BLACK \<and> searchInv g c'"
      by blast
    show ?thesis
    proof (cases r)
      case True
      with run \<open>c k = Some WHITE\<close> show ?thesis by simp
    next
      case False
      with post have adv: "advance c c'" and inv': "searchInv g c'" by simp_all
      have "card (whites c') \<le> card (whites c)"
        using advance_whites[OF adv] finite_whites[OF Cons.prems(1)] by (rule card_mono[rotated])
      with Cons.prems(2) have "card (whites c') \<le> length g" by simp
      from Cons.IH[OF inv' this, of p' cy'] run False \<open>c k = Some WHITE\<close> show ?thesis by simp
    qed
  next
    case False
    with Cons.IH[OF Cons.prems, of p cy] show ?thesis by simp
  qed
qed


lemma initial_colors:
  "map_of (map (\<lambda>(k, v). (k, WHITE)) g) k = (if k \<in> dom (map_of g) then Some WHITE else None)"
  by (induction g) auto

lemma initial_searchInv:
  assumes "\<forall>a b. (a, b) \<in> edges g \<longrightarrow> b \<in> dom (map_of g)"
  shows "searchInv g (map_of (map (\<lambda>(k, v). (k, WHITE)) g))"
    and "card (whites (map_of (map (\<lambda>(k, v). (k, WHITE)) g))) \<le> length g"
proof -
  let ?c = "map_of (map (\<lambda>(k, v). (k, WHITE)) g)"
  have d: "dom ?c = dom (map_of g)" by (auto simp: initial_colors dom_def)
  have nb: "?c a \<noteq> Some BLACK" for a by (simp add: initial_colors)
  from assms d nb show "searchInv g ?c" by (simp add: searchInv_def)
  have "whites ?c \<subseteq> fst ` set g"
    by (auto simp: whites_def initial_colors dom_map_of_conv_image_fst split: if_splits)
  then have "card (whites ?c) \<le> card (fst ` set g)" by (intro card_mono) auto
  also have "\<dots> \<le> card (set g)" by (intro card_image_le) simp
  also have "\<dots> \<le> length g" by (rule card_length)
  finally show "card (whites ?c) \<le> length g" .
qed

lemma detectCycles_returns:
  assumes "\<forall>a b. (a, b) \<in> edges g \<longrightarrow> b \<in> dom (map_of g)"
  shows "\<exists>res. detectCycles g = Inr res"
  unfolding detectCycles_def
  using initial_searchInv[OF assms] by (rule detectLoop_returns)


section \<open>The graph of buildDependencyGraph\<close>

lemma map_of_foldl_update:
  "map_of (foldl (\<lambda>graph wo. AList.update (f wo) (h wo) graph) init wos) k =
     (case map_of (rev (map (\<lambda>wo. (f wo, h wo)) wos)) k of
        Some v \<Rightarrow> Some v | None \<Rightarrow> map_of init k)"
proof (induction wos arbitrary: init)
  case Nil
  then show ?case by simp
next
  case (Cons wo wos)
  show ?case
    by (simp add: Cons.IH update_conv' map_add_def split: option.splits)
qed

lemma initNodes_parents:
  "map_option parents (map_of (initNodes wos) k)
     = map_option (\<lambda>wo. dependsOnWorkOrderIds (data wo)) (workOrderMapGet wos k)"
proof -
  let ?h = "\<lambda>wo. \<lparr>nodeWorkOrderId = docId wo, parents = dependsOnWorkOrderIds (data wo),
                   children = [], depth = 0\<rparr>"
  have "rev (map (\<lambda>wo. (docId wo, ?h wo)) wos)
      = map (\<lambda>(k, v). (k, ?h v)) (rev (map (\<lambda>wo. (docId wo, wo)) wos))"
    by (simp add: rev_map comp_def)
  then have "map_of (rev (map (\<lambda>wo. (docId wo, ?h wo)) wos)) k
      = map_option ?h (workOrderMapGet wos k)"
    by (simp only: map_of_map workOrderMapGet_def comp_def)
  then show ?thesis
    by (cases "workOrderMapGet wos k") (simp_all add: initNodes_def map_of_foldl_update)
qed

lemma addChildren_parents:
  "addChildren g wo ps = Inr g' \<Longrightarrow>
   map_option parents (map_of g' k) = map_option parents (map_of g k)"
proof (induction ps arbitrary: g)
  case Nil
  then show ?case by simp
next
  case (Cons p ps)
  from Cons.prems obtain node where node: "map_of g p = Some node"
    and run: "addChildren (AList.update p (node\<lparr>children := children node @ [docId wo]\<rparr>) g) wo ps
                = Inr g'"
    by (auto split: option.splits)
  from Cons.IH[OF run] node show ?case by (simp add: update_conv')
qed

lemma linkChildren_parents:
  "linkChildren g wos = Inr g' \<Longrightarrow>
   map_option parents (map_of g' k) = map_option parents (map_of g k)"
proof (induction wos arbitrary: g)
  case Nil
  then show ?case by simp
next
  case (Cons wo wos)
  from Cons.prems obtain g1 where a: "addChildren g wo (dependsOnWorkOrderIds (data wo)) = Inr g1"
    and l: "linkChildren g1 wos = Inr g'"
    by (auto split: sum.splits)
  from Cons.IH[OF l] addChildren_parents[OF a] show ?case by simp
qed

lemma addChildren_dom:
  "addChildren g wo ps = Inr g' \<Longrightarrow> dom (map_of g') = dom (map_of g)"
  by (drule addChildren_keys) (simp add: dom_map_of_conv_image_fst flip: set_map)


lemma addChildren_deps:
  "addChildren g wo ps = Inr g' \<Longrightarrow> set ps \<subseteq> dom (map_of g)"
proof (induction ps arbitrary: g)
  case Nil
  then show ?case by simp
next
  case (Cons p ps)
  from Cons.prems obtain node where node: "map_of g p = Some node"
    and run: "addChildren (AList.update p (node\<lparr>children := children node @ [docId wo]\<rparr>) g) wo ps
                = Inr g'"
    by (auto split: option.splits)
  let ?g = "AList.update p (node\<lparr>children := children node @ [docId wo]\<rparr>) g"
  have "dom (map_of ?g) = dom (map_of g)" using node by (auto simp: update_conv')
  with Cons.IH[OF run] node show ?case by auto
qed


lemma linkChildren_deps:
  "linkChildren g wos = Inr g' \<Longrightarrow>
   \<forall>wo \<in> set wos. set (dependsOnWorkOrderIds (data wo)) \<subseteq> dom (map_of g)"
proof (induction wos arbitrary: g)
  case Nil
  then show ?case by simp
next
  case (Cons wo wos)
  from Cons.prems obtain g1 where a: "addChildren g wo (dependsOnWorkOrderIds (data wo)) = Inr g1"
    and l: "linkChildren g1 wos = Inr g'"
    by (auto split: sum.splits)
  from Cons.IH[OF l] addChildren_dom[OF a] addChildren_deps[OF a] show ?case by simp
qed

lemma initNodes_dom: "dom (map_of (initNodes wos)) = docId ` set wos"
  using initNodes_keys(2)[of wos] by (simp add: dom_map_of_conv_image_fst)


lemma buildDependencyGraph_edges:
  assumes g: "buildDependencyGraph wos = Inr g"
  shows "edges g = dependencyEdges wos"
    and "\<forall>a b. (a, b) \<in> edges g \<longrightarrow> b \<in> dom (map_of g)"
proof -
  from g have l: "linkChildren (initNodes wos) wos = Inr g"
    by (simp add: buildDependencyGraph_def)
  have par: "map_option parents (map_of g k)
      = map_option (\<lambda>wo. dependsOnWorkOrderIds (data wo)) (workOrderMapGet wos k)" for k
    using linkChildren_parents[OF l, of k] by (simp add: initNodes_parents)
  have iff: "(a, b) \<in> edges g \<longleftrightarrow> (a, b) \<in> dependencyEdges wos" for a b
  proof (cases "map_of g a")
    case None
    with par[of a] have "workOrderMapGet wos a = None" by simp
    with None show ?thesis by (simp add: edges_def dependencyEdges_def)
  next
    case (Some node)
    with par[of a] obtain wo where wo: "workOrderMapGet wos a = Some wo"
      "parents node = dependsOnWorkOrderIds (data wo)"
      by (cases "workOrderMapGet wos a") auto
    with Some show ?thesis by (simp add: edges_def dependencyEdges_def)
  qed
  then show e: "edges g = dependencyEdges wos" by auto
  have d: "dom (map_of g) = docId ` set wos"
    using buildDependencyGraph_keys(2)[OF g] by (simp add: dom_map_of_conv_image_fst)
  show "\<forall>a b. (a, b) \<in> edges g \<longrightarrow> b \<in> dom (map_of g)"
  proof (intro allI impI)
    fix a b assume "(a, b) \<in> edges g"
    with e obtain wo where wo: "workOrderMapGet wos a = Some wo"
      "b \<in> set (dependsOnWorkOrderIds (data wo))"
      by (auto simp: dependencyEdges_def)
    from wo(1) have "(a, wo) \<in> set (rev (map (\<lambda>wo. (docId wo, wo)) wos))"
      unfolding workOrderMapGet_def by (rule map_of_SomeD)
    then have "wo \<in> set wos" by auto
    with linkChildren_deps[OF l] wo(2) have "b \<in> dom (map_of (initNodes wos))" by blast
    then show "b \<in> dom (map_of g)" by (simp add: initNodes_dom d)
  qed
qed

text \<open>The search of \<open>detectCycles\<close> is never cut off on a graph that \<open>buildDependencyGraph\<close> built.\<close>

lemma detectCycles_fuel:
  "buildDependencyGraph wos = Inr g \<Longrightarrow> \<exists>res. detectCycles g = Inr res"
  by (rule detectCycles_returns) (rule buildDependencyGraph_edges(2))

section \<open>Cycles\<close>




end
